theory Spec2Isabelle
  imports Main "HOL-Library.Char_ord" "HOL-Library.List_Lexorder" "HOL-Library.Multiset"
begin

section \<open>The directory crawler of \<^verbatim>\<open>scripts/rp_cli.py\<close>\<close>

text \<open>
  The development embeds \<^verbatim>\<open>LINK_RE\<close>, \<^verbatim>\<open>_parse_links\<close> and \<^verbatim>\<open>crawl_directory\<close>.
  Python strings are modelled as \<^typ>\<open>string\<close>; a \<^typ>\<open>char\<close> stands for the code point
  of the same number, so the model covers the strings whose code points are below 256.
  Strings are compared by code point, lexicographically, as Python compares them.

  What the standard library does is taken as a parameter wherever the crawler only
  calls it: \<open>fetch\<close> is the outcome of \<^verbatim>\<open>_fetch_page(url)\<close> (the body, or the exception
  that \<^verbatim>\<open>Request\<close>, \<^verbatim>\<open>urlopen\<close>, \<^verbatim>\<open>read\<close> or \<^verbatim>\<open>decode\<close> raises), \<open>urljoin\<close> is the
  outcome of \<^verbatim>\<open>urllib.parse.urljoin\<close> (the joined URL, or the \<^verbatim>\<open>ValueError\<close> it raises on
  a URL it cannot split), and \<open>delay\<close> is the time at which each submitted future
  completes, which fixes the order in which \<^verbatim>\<open>as_completed\<close> yields the futures.
  A fetch result is fixed for each URL, and every fetch ends: it returns a body or
  raises. The threads of the pool are not modelled; what they leave open, the order in
  which the futures of a level complete, ranges over all orders as \<open>delay\<close> varies.
\<close>

subsection \<open>Strings\<close>

text \<open>\<^verbatim>\<open>str.isspace\<close> on one character, which is also the class \<^verbatim>\<open>\s\<close> of a \<^verbatim>\<open>str\<close>
  pattern: code points 9 to 13, 28 to 32, 133 and 160 among those below 256.\<close>

definition isspace :: "char \<Rightarrow> bool" where
  "isspace c =
     (let n = (of_char c :: nat)
      in (9 \<le> n \<and> n \<le> 13) \<or> (28 \<le> n \<and> n \<le> 32) \<or> n = 133 \<or> n = 160)"

definition strip :: "string \<Rightarrow> string" where
  "strip s = rev (dropWhile isspace (rev (dropWhile isspace s)))"

text \<open>\<^verbatim>\<open>name.rstrip("/")\<close>\<close>

definition rstrip_slash :: "string \<Rightarrow> string" where
  "rstrip_slash s = rev (dropWhile (\<lambda>c. c = CHR ''/'') (rev s))"

definition startswith :: "string \<Rightarrow> string \<Rightarrow> bool" where
  "startswith s p = (take (length p) s = p)"

definition endswith :: "string \<Rightarrow> string \<Rightarrow> bool" where
  "endswith s p = (length p \<le> length s \<and> drop (length s - length p) s = p)"

text \<open>\<^verbatim>\<open>p in s\<close> for strings: \<open>p\<close> occurs in \<open>s\<close> at some position.\<close>

fun contains :: "string \<Rightarrow> string \<Rightarrow> bool" where
  "contains [] p = (p = [])"
| "contains (c # cs) p = (startswith (c # cs) p \<or> contains cs p)"

subsection \<open>The pattern \<^verbatim>\<open>LINK_RE\<close>\<close>

text \<open>
  \<^verbatim>\<open>LINK_RE = re.compile(r'<a\s+[^>]*href="([^"]*)"[^>]*>([^<]*)</a>')\<close>

  The matcher below is the backtracking search of \<^verbatim>\<open>re\<close> for this one pattern.
  After \<^verbatim>\<open>href="\<close> nothing can backtrack: each starred class is followed by a
  character outside the class. Before it, \<^verbatim>\<open>[^>]*\<close> is greedy, so among the
  places before the first \<^verbatim>\<open>>\<close> where \<^verbatim>\<open>href="\<close> begins, the last one from which the
  rest matches is taken. How \<^verbatim>\<open>\s+\<close> and \<^verbatim>\<open>[^>]*\<close> share the white space does not
  change the groups.
\<close>

fun match_literal :: "string \<Rightarrow> string \<Rightarrow> string option" where
  "match_literal [] s = Some s"
| "match_literal (p # ps) [] = None"
| "match_literal (p # ps) (c # cs) = (if p = c then match_literal ps cs else None)"

text \<open>The part \<^verbatim>\<open>([^"]*)"[^>]*>([^<]*)</a>\<close>: the two groups and the text after the match.\<close>

definition match_tail :: "string \<Rightarrow> (string \<times> string \<times> string) option" where
  "match_tail s =
     (let href = takeWhile (\<lambda>c. c \<noteq> CHR 0x22) s
      in case dropWhile (\<lambda>c. c \<noteq> CHR 0x22) s of
           [] \<Rightarrow> None
         | q # r2 \<Rightarrow>
             (case dropWhile (\<lambda>c. c \<noteq> CHR ''>'') r2 of
                [] \<Rightarrow> None
              | g # r4 \<Rightarrow>
                  (let txt = takeWhile (\<lambda>c. c \<noteq> CHR ''<'') r4
                   in case match_literal ''</a>'' (dropWhile (\<lambda>c. c \<noteq> CHR ''<'') r4) of
                        None \<Rightarrow> None
                      | Some rest \<Rightarrow> Some (href, txt, rest))))"

text \<open>The part \<^verbatim>\<open>[^>]*href="\<close> and what follows: later places are tried first.\<close>

fun match_href :: "string \<Rightarrow> (string \<times> string \<times> string) option" where
  "match_href [] = None"
| "match_href (c # cs) =
     (if c = CHR ''>'' then None
      else case match_href cs of
             Some m \<Rightarrow> Some m
           | None \<Rightarrow>
               (case match_literal (''href='' @ [CHR 0x22]) (c # cs) of
                  None \<Rightarrow> None
                | Some t \<Rightarrow> match_tail t))"

text \<open>A match that starts at the head of the text.\<close>

fun match_at :: "string \<Rightarrow> (string \<times> string \<times> string) option" where
  "match_at (a # b # w # s) =
     (if a = CHR ''<'' \<and> b = CHR ''a'' \<and> isspace w then match_href s else None)"
| "match_at s = None"

lemma match_literal_length: "match_literal p s = Some r \<Longrightarrow> length r \<le> length s"
  by (induction p s rule: match_literal.induct) (auto split: if_splits)

lemma match_tail_length:
  assumes "match_tail s = Some (h, t, r)"
  shows "length r < length s"
proof -
  from assms obtain q r2 g r4 where
    a: "dropWhile (\<lambda>c. c \<noteq> CHR 0x22) s = q # r2" and
    b: "dropWhile (\<lambda>c. c \<noteq> CHR ''>'') r2 = g # r4" and
    c: "match_literal ''</a>'' (dropWhile (\<lambda>c. c \<noteq> CHR ''<'') r4) = Some r"
    by (auto simp: match_tail_def Let_def split: list.splits option.splits)
  have "length r \<le> length (dropWhile (\<lambda>c. c \<noteq> CHR ''<'') r4)"
    using c by (rule match_literal_length)
  also have "\<dots> \<le> length r4"
    by (rule length_dropWhile_le)
  also have "\<dots> < length (g # r4)"
    by simp
  also have "\<dots> \<le> length r2"
    unfolding b [symmetric] by (rule length_dropWhile_le)
  also have "\<dots> < length (q # r2)"
    by simp
  also have "\<dots> \<le> length s"
    unfolding a [symmetric] by (rule length_dropWhile_le)
  finally show ?thesis .
qed

lemma match_href_length: "match_href s = Some (h, t, r) \<Longrightarrow> length r < length s"
proof (induction s)
  case Nil
  then show ?case by simp
next
  case (Cons c cs)
  show ?case
  proof (cases "match_href cs")
    case (Some m)
    with Cons show ?thesis by (auto split: if_splits)
  next
    case None
    with Cons.prems obtain u where
      u: "match_literal (''href='' @ [CHR 0x22]) (c # cs) = Some u" and
      v: "match_tail u = Some (h, t, r)"
      by (auto split: if_splits option.splits)
    from match_literal_length [OF u] match_tail_length [OF v] show ?thesis
      by simp
  qed
qed

lemma match_at_length: "match_at s = Some (h, t, r) \<Longrightarrow> length r < length s"
  by (induction s rule: match_at.induct)
     (auto split: if_splits dest: match_href_length)

text \<open>\<^verbatim>\<open>LINK_RE.finditer(html)\<close>, as the list of the pairs (group 1, group 2): the
  matches do not overlap, and the search resumes where the last match ended.\<close>

function finditer :: "string \<Rightarrow> (string \<times> string) list" where
  "finditer [] = []"
| "finditer (c # cs) =
     (case match_at (c # cs) of
        Some (h, t, r) \<Rightarrow> (h, t) # finditer r
      | None \<Rightarrow> finditer cs)"
  by pat_completeness auto
termination
  by (relation "measure length") (auto dest: match_at_length)

subsection \<open>\<^verbatim>\<open>_parse_links\<close>\<close>

text \<open>
  The exceptions the crawler tells apart. \<^verbatim>\<open>except (urllib.error.URLError, OSError)\<close>
  names the first two. \<open>ValueError\<close> is what \<^verbatim>\<open>urljoin\<close> and \<^verbatim>\<open>Request\<close> raise on a URL
  they reject, what \<^verbatim>\<open>decode\<close> raises on a body that is not UTF-8, and what
  \<^verbatim>\<open>ThreadPoolExecutor\<close> raises when \<^verbatim>\<open>max_workers <= 0\<close>. \<open>HTTPException\<close> stands for
  \<^verbatim>\<open>http.client.HTTPException\<close>, the class of \<^verbatim>\<open>IncompleteRead\<close> (the connection closed
  before the whole body came) and \<^verbatim>\<open>BadStatusLine\<close>: it is a subclass of neither
  \<^verbatim>\<open>URLError\<close> nor \<^verbatim>\<open>OSError\<close>.
\<close>

datatype exn = URLError | OSError | ValueError | HTTPException

text \<open>A link is the tuple \<^verbatim>\<open>(name, absolute_url, is_dir)\<close>.\<close>

type_synonym link = "string \<times> string \<times> bool"

text \<open>The loop over the matches, with the set \<^verbatim>\<open>seen\<close> and the list \<^verbatim>\<open>links\<close>
  it updates. Each \<^verbatim>\<open>continue\<close> goes on with both unchanged. Nothing catches what
  \<^verbatim>\<open>urljoin\<close> raises: the exception leaves \<^verbatim>\<open>_parse_links\<close> and no list is returned.\<close>

fun parse_loop ::
  "(string \<Rightarrow> string \<Rightarrow> exn + string) \<Rightarrow> string \<Rightarrow> (string \<times> string) list \<Rightarrow>
   string set \<Rightarrow> link list \<Rightarrow> exn + link list" where
  "parse_loop urljoin base_url [] seen links = Inr links"
| "parse_loop urljoin base_url ((href, text) # ms) seen links =
     (let name = strip text
      in if href = [] \<or> href = ''../'' then parse_loop urljoin base_url ms seen links
         else if startswith href ''?'' \<or> startswith href ''#'' \<or> startswith href ''/''
           then parse_loop urljoin base_url ms seen links
         else if contains href ''://'' then parse_loop urljoin base_url ms seen links
         else if href \<in> seen then parse_loop urljoin base_url ms seen links
         else case urljoin base_url href of
                Inl e \<Rightarrow> Inl e
              | Inr abs_url \<Rightarrow>
                  parse_loop urljoin base_url ms (insert href seen)
                    (links @ [(rstrip_slash name, abs_url, endswith href ''/'')]))"

definition parse_links ::
  "(string \<Rightarrow> string \<Rightarrow> exn + string) \<Rightarrow> string \<Rightarrow> string \<Rightarrow> exn + link list" where
  "parse_links urljoin html base_url = parse_loop urljoin base_url (finditer html) {} []"

subsection \<open>\<^verbatim>\<open>crawl_directory\<close>\<close>

text \<open>
  An item of a level is the tuple \<^verbatim>\<open>(url, depth, prefix)\<close>, an entry of the result the
  tuple \<^verbatim>\<open>(kind, path, url)\<close> with kind \<^verbatim>\<open>"d"\<close> or \<^verbatim>\<open>"f"\<close>. Of the exceptions of a
  fetch, \<^verbatim>\<open>except (urllib.error.URLError, OSError)\<close> catches the first two; any other
  leaves \<^verbatim>\<open>crawl_directory\<close>.
\<close>

type_synonym item = "string \<times> int \<times> string"

type_synonym entry = "string \<times> string \<times> string"

fun caught :: "exn \<Rightarrow> bool" where
  "caught URLError = True"
| "caught OSError = True"
| "caught ValueError = False"
| "caught HTTPException = False"

text \<open>The loop over \<^verbatim>\<open>_parse_links(html, url)\<close> inside \<^verbatim>\<open>crawl_directory\<close>, appending
  to \<^verbatim>\<open>results\<close> and \<^verbatim>\<open>next_level\<close>.\<close>

fun add_links ::
  "link list \<Rightarrow> int \<Rightarrow> string \<Rightarrow> entry list \<Rightarrow> item list \<Rightarrow> entry list \<times> item list" where
  "add_links [] depth prefix results next_level = (results, next_level)"
| "add_links ((name, link_url, is_dir) # ls) depth prefix results next_level =
     (let path = prefix @ name @ (if is_dir then ''/'' else []);
          results' = results @ [(if is_dir then ''d'' else ''f'', path, link_url)]
      in if is_dir
         then add_links ls depth prefix results'
                (next_level @ [(link_url, depth + 1, prefix @ name @ ''/'')])
         else add_links ls depth prefix results' next_level)"

text \<open>The loop \<^verbatim>\<open>for future in as_completed(future_map)\<close> over the futures in the
  order in which they complete. Only \<^verbatim>\<open>future.result()\<close> is inside the \<^verbatim>\<open>try\<close>: an
  exception of a fetch that is not caught ends the crawl, and so does any exception of
  \<^verbatim>\<open>_parse_links\<close>, which is called outside it.\<close>

fun process_completed ::
  "(string \<Rightarrow> exn + string) \<Rightarrow> (string \<Rightarrow> string \<Rightarrow> exn + string) \<Rightarrow> item list \<Rightarrow>
   entry list \<Rightarrow> item list \<Rightarrow> exn + entry list \<times> item list" where
  "process_completed fetch urljoin [] results next_level = Inr (results, next_level)"
| "process_completed fetch urljoin ((url, depth, prefix) # rest) results next_level =
     (case fetch url of
        Inl e \<Rightarrow>
          if caught e then process_completed fetch urljoin rest results next_level
          else Inl e
      | Inr html \<Rightarrow>
          (case parse_links urljoin html url of
             Inl e \<Rightarrow> Inl e
           | Inr links \<Rightarrow>
               (case add_links links depth prefix results next_level of
                  (results', next_level') \<Rightarrow>
                    process_completed fetch urljoin rest results' next_level')))"

text \<open>The first loop of a level: every item below \<^verbatim>\<open>max_depth\<close> is submitted, in the
  order of \<^verbatim>\<open>current_level\<close>. The list is \<^verbatim>\<open>future_map\<close> in insertion order.\<close>

definition submit :: "int \<Rightarrow> item list \<Rightarrow> item list" where
  "submit max_depth current_level =
     filter (\<lambda>(url, depth, prefix). \<not> depth \<ge> max_depth) current_level"

text \<open>\<^verbatim>\<open>as_completed\<close> yields every future once, the earlier completed first; the
  future submitted at place \<open>i\<close> completes at time \<open>delay i\<close>, and futures that
  complete together come in the order of submission.\<close>

definition as_completed :: "(nat \<Rightarrow> nat) \<Rightarrow> 'a list \<Rightarrow> 'a list" where
  "as_completed delay future_map =
     map snd (sort_key (\<lambda>(i, x). delay i) (enumerate 0 future_map))"

subsection \<open>What one item adds\<close>

text \<open>The entry and the next item built from one link of a page that was fetched
  for an item with the given depth and prefix.\<close>

definition is_dir :: "link \<Rightarrow> bool" where
  "is_dir l = snd (snd l)"

definition entry_of :: "string \<Rightarrow> link \<Rightarrow> entry" where
  "entry_of prefix l =
     (case l of (name, link_url, d) \<Rightarrow>
        (if d then ''d'' else ''f'', prefix @ name @ (if d then ''/'' else []), link_url))"

definition child_of :: "int \<Rightarrow> string \<Rightarrow> link \<Rightarrow> item" where
  "child_of depth prefix l =
     (case l of (name, link_url, d) \<Rightarrow> (link_url, depth + 1, prefix @ name @ ''/''))"

text \<open>The links of the page of an item: none when the fetch or \<^verbatim>\<open>_parse_links\<close> raises.\<close>

definition page_links ::
  "(string \<Rightarrow> exn + string) \<Rightarrow> (string \<Rightarrow> string \<Rightarrow> exn + string) \<Rightarrow> item \<Rightarrow> link list" where
  "page_links fetch urljoin it =
     (case it of (url, depth, prefix) \<Rightarrow>
        (case fetch url of
           Inl e \<Rightarrow> []
         | Inr html \<Rightarrow> (case parse_links urljoin html url of Inl e \<Rightarrow> [] | Inr links \<Rightarrow> links)))"

definition item_entries ::
  "(string \<Rightarrow> exn + string) \<Rightarrow> (string \<Rightarrow> string \<Rightarrow> exn + string) \<Rightarrow> item \<Rightarrow> entry list" where
  "item_entries fetch urljoin it =
     (case it of (url, depth, prefix) \<Rightarrow> map (entry_of prefix) (page_links fetch urljoin it))"

definition item_children ::
  "(string \<Rightarrow> exn + string) \<Rightarrow> (string \<Rightarrow> string \<Rightarrow> exn + string) \<Rightarrow> item \<Rightarrow> item list" where
  "item_children fetch urljoin it =
     (case it of (url, depth, prefix) \<Rightarrow>
        map (child_of depth prefix) (filter is_dir (page_links fetch urljoin it)))"

text \<open>Handling the item raises: its fetch raises an exception that is not caught, or
  \<^verbatim>\<open>_parse_links\<close> raises on its page.\<close>

definition item_raises ::
  "(string \<Rightarrow> exn + string) \<Rightarrow> (string \<Rightarrow> string \<Rightarrow> exn + string) \<Rightarrow> item \<Rightarrow> bool" where
  "item_raises fetch urljoin it =
     (case fetch (fst it) of
        Inl e \<Rightarrow> \<not> caught e
      | Inr html \<Rightarrow> isl (parse_links urljoin html (fst it)))"

lemma add_links_eq:
  "add_links ls depth prefix results next_level =
     (results @ map (entry_of prefix) ls,
      next_level @ map (child_of depth prefix) (filter is_dir ls))"
proof (induction ls arbitrary: results next_level)
  case Nil
  show ?case by simp
next
  case (Cons l ls)
  obtain name link_url d where l: "l = (name, link_url, d)"
    by (cases l)
  show ?case
    by (cases d) (simp_all add: l Cons.IH entry_of_def child_of_def is_dir_def)
qed

lemma process_completed_Inr:
  "\<forall>it \<in> set items. \<not> item_raises fetch urljoin it \<Longrightarrow>
   process_completed fetch urljoin items results next_level =
     Inr (results @ concat (map (item_entries fetch urljoin) items),
          next_level @ concat (map (item_children fetch urljoin) items))"
proof (induction items arbitrary: results next_level)
  case Nil
  show ?case by simp
next
  case (Cons it items)
  obtain url depth prefix where it: "it = (url, depth, prefix)"
    by (cases it)
  from Cons.prems have rest: "\<forall>it \<in> set items. \<not> item_raises fetch urljoin it"
    by simp
  show ?case
  proof (cases "fetch url")
    case (Inl e)
    with Cons.prems it have "caught e"
      by (simp add: item_raises_def)
    with Inl show ?thesis
      by (simp add: it Cons.IH [OF rest] item_entries_def item_children_def page_links_def)
  next
    case (Inr html)
    with Cons.prems it obtain links where "parse_links urljoin html url = Inr links"
      by (cases "parse_links urljoin html url") (simp_all add: item_raises_def)
    with Inr show ?thesis
      by (simp add: it add_links_eq Cons.IH [OF rest] item_entries_def item_children_def
          page_links_def)
  qed
qed

lemma process_completed_Inl:
  "\<exists>it \<in> set items. item_raises fetch urljoin it \<Longrightarrow>
   \<exists>e. process_completed fetch urljoin items results next_level = Inl e"
proof (induction items arbitrary: results next_level)
  case Nil
  then show ?case by simp
next
  case (Cons it items)
  obtain url depth prefix where it: "it = (url, depth, prefix)"
    by (cases it)
  show ?case
  proof (cases "item_raises fetch urljoin it")
    case True
    then show ?thesis
      by (auto simp: it item_raises_def split: sum.splits)
  next
    case False
    with Cons.prems have "\<exists>it \<in> set items. item_raises fetch urljoin it"
      by simp
    from Cons.IH [OF this] False show ?thesis
      by (auto simp: it item_raises_def add_links_eq split: sum.splits)
  qed
qed

lemma process_completed_cases:
  "process_completed fetch urljoin items results next_level = Inr (results', next_level') \<Longrightarrow>
   (\<forall>it \<in> set items. \<not> item_raises fetch urljoin it) \<and>
   results' = results @ concat (map (item_entries fetch urljoin) items) \<and>
   next_level' = next_level @ concat (map (item_children fetch urljoin) items)"
  using process_completed_Inl [where items = items and fetch = fetch and urljoin = urljoin
      and results = results and next_level = next_level]
    process_completed_Inr [where items = items and fetch = fetch and urljoin = urljoin
      and results = results and next_level = next_level]
  by (cases "\<exists>it \<in> set items. item_raises fetch urljoin it") auto

lemma mset_as_completed: "mset (as_completed delay xs) = mset xs"
proof -
  have "mset (as_completed delay xs) = mset (map snd (enumerate 0 xs))"
    unfolding as_completed_def mset_map by simp
  then show ?thesis
    by (simp only: map_snd_enumerate)
qed

lemma set_as_completed: "set (as_completed delay xs) = set xs"
  using mset_as_completed [of delay xs] by (rule mset_eq_setD)

lemma sort_key_min_first:
  "\<forall>x \<in> set as \<union> set bs. f a < f x \<Longrightarrow>
   sort_key f (as @ a # bs) = a # sort_key f (as @ bs)"
proof (induction as)
  case Nil
  then have "\<forall>x \<in> set (sort_key f bs). f a \<le> f x"
    by (simp add: less_imp_le)
  then show ?case
    by (simp add: insort_is_Cons)
next
  case (Cons x as)
  then have "\<not> f x \<le> f a" and "sort_key f (as @ a # bs) = a # sort_key f (as @ bs)"
    by (auto simp: not_le)
  then show ?case
    by simp
qed

lemma insort_key_Suc:
  fixes f g :: "'a \<Rightarrow> nat"
  shows "\<forall>z \<in> set (x # ys). f z = Suc (g z) \<Longrightarrow> insort_key f x ys = insort_key g x ys"
  by (induction ys) simp_all

lemma sort_key_Suc:
  fixes f g :: "'a \<Rightarrow> nat"
  shows "\<forall>z \<in> set zs. f z = Suc (g z) \<Longrightarrow> sort_key f zs = sort_key g zs"
proof (induction zs)
  case Nil
  show ?case by simp
next
  case (Cons z zs)
  then have "sort_key f zs = sort_key g zs"
    by simp
  moreover have "insort_key f z (sort_key g zs) = insort_key g z (sort_key g zs)"
    using Cons.prems by (intro insort_key_Suc) simp
  ultimately show ?case
    by simp
qed

lemma tagged_any_order:
  "distinct (map fst zs) \<Longrightarrow> mset ys = mset (map snd zs) \<Longrightarrow>
   \<exists>delay :: nat \<Rightarrow> nat. map snd (sort_key (\<lambda>(i, x). delay i) zs) = ys"
proof (induction ys arbitrary: zs)
  case Nil
  then show ?case by simp
next
  case (Cons y ys)
  from Cons.prems(2) have "y \<in> set (map snd zs)"
    by (metis list.set_intros(1) mset_eq_setD)
  then obtain i where "(i, y) \<in> set zs"
    by auto
  then obtain as bs where zs: "zs = as @ (i, y) # bs"
    by (auto dest: split_list)
  from Cons.prems(1) have d: "distinct (map fst (as @ bs))"
    and ni: "\<forall>z \<in> set as \<union> set bs. fst z \<noteq> i"
    by (auto simp: zs)
  from Cons.prems(2) have "mset ys = mset (map snd (as @ bs))"
    by (simp add: zs)
  from Cons.IH [OF d this] obtain delay' :: "nat \<Rightarrow> nat" where
    IH: "map snd (sort_key (\<lambda>(i, x). delay' i) (as @ bs)) = ys"
    by blast
  define delay where "delay j = (if j = i then 0 else Suc (delay' j))" for j
  let ?f = "\<lambda>(j, x). delay j" and ?g = "\<lambda>(j, x). delay' j"
  have key: "?f z = Suc (?g z)" if "z \<in> set as \<union> set bs" for z
  proof -
    from ni that have "fst z \<noteq> i"
      by blast
    then show ?thesis
      by (cases z) (simp add: delay_def)
  qed
  have "?f (i, y) = 0"
    by (simp add: delay_def)
  with key have "\<forall>z \<in> set as \<union> set bs. ?f (i, y) < ?f z"
    by simp
  then have "sort_key ?f zs = (i, y) # sort_key ?f (as @ bs)"
    unfolding zs by (rule sort_key_min_first)
  moreover have "sort_key ?f (as @ bs) = sort_key ?g (as @ bs)"
    using key by (intro sort_key_Suc) simp
  ultimately have "map snd (sort_key (\<lambda>(j, x). delay j) zs) = y # ys"
    using IH by simp
  then show ?case
    by (rule exI [of _ delay])
qed

text \<open>Every order of the futures of a level is the completion order for some delays.\<close>

lemma as_completed_any_order:
  assumes "mset ys = mset xs"
  shows "\<exists>delay. as_completed delay xs = ys"
proof -
  have "distinct (map fst (enumerate 0 xs))"
    by simp
  moreover have "mset ys = mset (map snd (enumerate 0 xs))"
    using assms by simp
  ultimately show ?thesis
    unfolding as_completed_def by (rule tagged_any_order)
qed

text \<open>The number of levels an item list can still open: the loop's measure.\<close>

definition height :: "int \<Rightarrow> item list \<Rightarrow> nat" where
  "height max_depth level =
     Max (insert 0 ((\<lambda>(url, depth, prefix). nat (max_depth - depth)) ` set level))"

lemma height_decreases:
  assumes sub: "submit max_depth current_level \<noteq> []"
    and pc: "process_completed fetch urljoin
               (as_completed delay (submit max_depth current_level)) results [] =
             Inr (results', next_level)"
  shows "height max_depth next_level < height max_depth current_level"
proof -
  let ?f = "\<lambda>(url, depth, prefix). nat (max_depth - depth) :: nat"
  let ?sub = "submit max_depth current_level"
  have fin: "finite (insert 0 (?f ` set current_level))"
    by simp
  have le: "?f it \<le> height max_depth current_level" if "it \<in> set current_level" for it
    unfolding height_def using that by (intro Max_ge) auto
  have sub_set: "it \<in> set current_level \<and> fst (snd it) < max_depth" if "it \<in> set ?sub" for it
    using that by (auto simp: submit_def)
  from sub obtain it0 where "it0 \<in> set ?sub"
    by (cases ?sub) auto
  with sub_set [of it0] le [of it0] have pos: "0 < height max_depth current_level"
    by (cases it0) auto
  from process_completed_cases [OF pc]
  have nl: "next_level = concat (map (item_children fetch urljoin) (as_completed delay ?sub))"
    by simp
  have small: "?f c < height max_depth current_level" if "c \<in> set next_level" for c
  proof -
    from that nl obtain it where it: "it \<in> set ?sub" and c: "c \<in> set (item_children fetch urljoin it)"
      by (auto simp: set_as_completed)
    obtain url depth prefix where itd: "it = (url, depth, prefix)"
      by (cases it)
    from c itd obtain l where "c = child_of depth prefix l"
      by (auto simp: item_children_def)
    then have "?f c = nat (max_depth - (depth + 1))"
      by (cases l) (simp add: child_of_def)
    moreover from sub_set [OF it] itd have "depth < max_depth" and "it \<in> set current_level"
      by simp_all
    moreover from le [OF \<open>it \<in> set current_level\<close>] itd
    have "nat (max_depth - depth) \<le> height max_depth current_level"
      by simp
    ultimately show ?thesis
      by linarith
  qed
  have "Max (insert 0 (?f ` set next_level)) < height max_depth current_level"
    using pos small by (subst Max_less_iff) auto
  then show ?thesis
    by (simp add: height_def)
qed

text \<open>
  The \<^verbatim>\<open>while current_level\<close> loop. \<open>n\<close> counts the levels done, for the delays of
  the level; \<open>submitted\<close> lists the items handed to \<^verbatim>\<open>executor.submit(_fetch_page, url)\<close>
  so far, in order. The loop returns that list with either the exception that left it or
  the unsorted \<^verbatim>\<open>results\<close>.
\<close>

function crawl_loop ::
  "(string \<Rightarrow> exn + string) \<Rightarrow> (string \<Rightarrow> string \<Rightarrow> exn + string) \<Rightarrow> (nat \<Rightarrow> nat \<Rightarrow> nat) \<Rightarrow>
   int \<Rightarrow> nat \<Rightarrow> item list \<Rightarrow> entry list \<Rightarrow> item list \<Rightarrow> item list \<times> (exn + entry list)" where
  "crawl_loop fetch urljoin delay max_depth n current_level results submitted =
     (if current_level = [] then (submitted, Inr results)
      else let future_map = submit max_depth current_level
           in if future_map = [] then (submitted, Inr results)
              else case process_completed fetch urljoin
                          (as_completed (delay n) future_map) results [] of
                     Inl e \<Rightarrow> (submitted @ future_map, Inl e)
                   | Inr (results', next_level) \<Rightarrow>
                       crawl_loop fetch urljoin delay max_depth (Suc n) next_level results'
                         (submitted @ future_map))"
  by pat_completeness auto
termination
  by (relation "measure (\<lambda>(fetch, urljoin, delay, max_depth, n, current_level, results, submitted).
        height max_depth current_level)")
     (auto intro: height_decreases)

declare crawl_loop.simps [simp del]

text \<open>\<^verbatim>\<open>crawl_directory(root_url, max_depth, workers)\<close>: the items submitted to the pool, and
  the exception raised or the list returned. \<^verbatim>\<open>list.sort\<close> is stable, as \<^const>\<open>sort_key\<close> is.\<close>

definition crawl_directory ::
  "(string \<Rightarrow> exn + string) \<Rightarrow> (string \<Rightarrow> string \<Rightarrow> exn + string) \<Rightarrow> (nat \<Rightarrow> nat \<Rightarrow> nat) \<Rightarrow>
   string \<Rightarrow> int \<Rightarrow> int \<Rightarrow> item list \<times> (exn + entry list)" where
  "crawl_directory fetch urljoin delay root_url max_depth workers =
     (let root_url = (if \<not> endswith root_url ''/'' then root_url @ ''/'' else root_url)
      in if workers \<le> 0 then ([], Inl ValueError)
         else case crawl_loop fetch urljoin delay max_depth 0 [(root_url, 0, [])] [] [] of
                (submitted, Inl e) \<Rightarrow> (submitted, Inl e)
              | (submitted, Inr results) \<Rightarrow>
                  (submitted, Inr (sort_key (\<lambda>x. fst (snd x)) results)))"

subsection \<open>The loop, level by level\<close>

text \<open>The entries and the next items that a list of items adds, item after item.\<close>

definition entries_of ::
  "(string \<Rightarrow> exn + string) \<Rightarrow> (string \<Rightarrow> string \<Rightarrow> exn + string) \<Rightarrow> item list \<Rightarrow> entry list" where
  "entries_of fetch urljoin xs = concat (map (item_entries fetch urljoin) xs)"

definition children_of ::
  "(string \<Rightarrow> exn + string) \<Rightarrow> (string \<Rightarrow> string \<Rightarrow> exn + string) \<Rightarrow> item list \<Rightarrow> item list" where
  "children_of fetch urljoin xs = concat (map (item_children fetch urljoin) xs)"

lemma mset_concat_map_cong:
  assumes "mset xs = mset ys"
  shows "mset (concat (map f xs)) = mset (concat (map f ys))"
proof -
  have "mset (concat (map f zs)) = sum_mset (image_mset (\<lambda>z. mset (f z)) (mset zs))" for zs
    by (induction zs) simp_all
  with assms show ?thesis
    by simp
qed

lemma entries_of_append [simp]:
  "entries_of fetch urljoin (xs @ ys) = entries_of fetch urljoin xs @ entries_of fetch urljoin ys"
  by (simp add: entries_of_def)

lemma children_of_append [simp]:
  "children_of fetch urljoin (xs @ ys) = children_of fetch urljoin xs @ children_of fetch urljoin ys"
  by (simp add: children_of_def)

lemma entries_of_Nil [simp]: "entries_of fetch urljoin [] = []"
  by (simp add: entries_of_def)

lemma children_of_Nil [simp]: "children_of fetch urljoin [] = []"
  by (simp add: children_of_def)

lemma submit_append [simp]:
  "submit max_depth (xs @ ys) = submit max_depth xs @ submit max_depth ys"
  by (simp add: submit_def)

lemma submit_Nil [simp]: "submit max_depth [] = []"
  by (simp add: submit_def)

lemma submit_depth: "it \<in> set (submit max_depth level) \<Longrightarrow> fst (snd it) < max_depth"
  by (auto simp: submit_def)

lemma mset_submit_cong: "mset xs = mset ys \<Longrightarrow> mset (submit max_depth xs) = mset (submit max_depth ys)"
  by (simp add: submit_def)

lemma mset_entries_of_cong:
  "mset xs = mset ys \<Longrightarrow> mset (entries_of fetch urljoin xs) = mset (entries_of fetch urljoin ys)"
  unfolding entries_of_def by (rule mset_concat_map_cong)

lemma mset_children_of_cong:
  "mset xs = mset ys \<Longrightarrow> mset (children_of fetch urljoin xs) = mset (children_of fetch urljoin ys)"
  unfolding children_of_def by (rule mset_concat_map_cong)

lemma crawl_loop_stop:
  "submit max_depth level = [] \<Longrightarrow>
   crawl_loop fetch urljoin delay max_depth n level results submitted = (submitted, Inr results)"
  by (simp add: crawl_loop.simps)

lemma crawl_loop_raise:
  "submit max_depth level \<noteq> [] \<Longrightarrow>
   process_completed fetch urljoin (as_completed (delay n) (submit max_depth level)) results [] = Inl e \<Longrightarrow>
   crawl_loop fetch urljoin delay max_depth n level results submitted =
     (submitted @ submit max_depth level, Inl e)"
  by (subst crawl_loop.simps) auto

lemma crawl_loop_step:
  "submit max_depth level \<noteq> [] \<Longrightarrow>
   process_completed fetch urljoin (as_completed (delay n) (submit max_depth level)) results [] =
     Inr (results', next_level) \<Longrightarrow>
   crawl_loop fetch urljoin delay max_depth n level results submitted =
     crawl_loop fetch urljoin delay max_depth (Suc n) next_level results'
       (submitted @ submit max_depth level)"
  by (subst crawl_loop.simps) auto

text \<open>What holds of the items a run of the loop submits.\<close>

definition loop_post ::
  "(string \<Rightarrow> exn + string) \<Rightarrow> (string \<Rightarrow> string \<Rightarrow> exn + string) \<Rightarrow> int \<Rightarrow> item list \<Rightarrow>
   entry list \<Rightarrow> item list \<Rightarrow> exn + entry list \<Rightarrow> bool" where
  "loop_post fetch urljoin max_depth level results new out =
     ((\<forall>it \<in> set new. fst (snd it) < max_depth) \<and>
      mset new \<subseteq># mset (submit max_depth level) +
                   mset (submit max_depth (children_of fetch urljoin new)) \<and>
      (case out of
         Inl e \<Rightarrow> (\<exists>it \<in> set new. item_raises fetch urljoin it)
       | Inr rs \<Rightarrow>
           (\<forall>it \<in> set new. \<not> item_raises fetch urljoin it) \<and>
           mset rs = mset results + mset (entries_of fetch urljoin new) \<and>
           mset new = mset (submit max_depth level) +
                      mset (submit max_depth (children_of fetch urljoin new))))"

lemma crawl_loop_post:
  "\<exists>new. fst (crawl_loop fetch urljoin delay max_depth n level results submitted) = submitted @ new \<and>
     loop_post fetch urljoin max_depth level results new
       (snd (crawl_loop fetch urljoin delay max_depth n level results submitted))"
proof (induction fetch urljoin delay max_depth n level results submitted rule: crawl_loop.induct)
  case (1 fetch urljoin delay max_depth n level results submitted)
  let ?fm = "submit max_depth level"
  let ?pc = "process_completed fetch urljoin (as_completed (delay n) ?fm) results []"
  show ?case
  proof (cases "?fm = []")
    case True
    then show ?thesis
      by (simp add: crawl_loop_stop loop_post_def)
  next
    case fm: False
    then have lv: "level \<noteq> []"
      by auto
    show ?thesis
    proof (cases ?pc)
      case (Inl e)
      have "\<exists>it \<in> set (as_completed (delay n) ?fm). item_raises fetch urljoin it"
        using Inl process_completed_Inr [of "as_completed (delay n) ?fm" fetch urljoin results "[]"]
        by auto
      then have "loop_post fetch urljoin max_depth level results ?fm (Inl e)"
        by (auto simp: loop_post_def set_as_completed submit_depth)
      then show ?thesis
        by (auto simp: crawl_loop_raise [where delay = delay and n = n, OF fm Inl])
    next
      case (Inr x)
      obtain results' next_level where x: "x = (results', next_level)"
        by (cases x)
      note pc = Inr [unfolded x]
      from process_completed_cases [OF pc]
      have ok: "\<forall>it \<in> set ?fm. \<not> item_raises fetch urljoin it"
        and r': "results' = results @ entries_of fetch urljoin (as_completed (delay n) ?fm)"
        and nl: "next_level = children_of fetch urljoin (as_completed (delay n) ?fm)"
        by (simp_all add: set_as_completed entries_of_def children_of_def)
      have mr: "mset results' = mset results + mset (entries_of fetch urljoin ?fm)"
        using mset_entries_of_cong [OF mset_as_completed, of fetch urljoin "delay n" ?fm]
        by (simp add: r')
      have mn: "mset (submit max_depth next_level) =
                mset (submit max_depth (children_of fetch urljoin ?fm))"
        unfolding nl
        by (intro mset_submit_cong mset_children_of_cong mset_as_completed)
      let ?rec = "crawl_loop fetch urljoin delay max_depth (Suc n) next_level results'
                    (submitted @ ?fm)"
      from "1.IH" [OF lv refl fm pc refl] obtain new where
        new: "fst ?rec = (submitted @ ?fm) @ new" and
        post: "loop_post fetch urljoin max_depth next_level results' new (snd ?rec)"
        by blast
      have eq: "crawl_loop fetch urljoin delay max_depth n level results submitted = ?rec"
        by (rule crawl_loop_step [where delay = delay and n = n, OF fm pc])
      have "loop_post fetch urljoin max_depth level results (?fm @ new) (snd ?rec)"
        using post ok submit_depth [of _ max_depth level] unfolding loop_post_def
        by (auto simp: mr mn split: sum.splits)
      with new show ?thesis
        unfolding eq by auto
    qed
  qed
qed

lemma crawl_loop_submitted:
  "\<exists>new. fst (crawl_loop fetch urljoin delay max_depth n level results submitted) =
          submitted @ submit max_depth level @ new"
proof (cases "submit max_depth level = []")
  case True
  then show ?thesis
    by (simp add: crawl_loop_stop)
next
  case fm: False
  show ?thesis
  proof (cases "process_completed fetch urljoin
                  (as_completed (delay n) (submit max_depth level)) results []")
    case (Inl e)
    show ?thesis
      by (simp add: crawl_loop_raise [where delay = delay and n = n, OF fm Inl])
  next
    case (Inr x)
    obtain results' next_level where x: "x = (results', next_level)"
      by (cases x)
    from crawl_loop_post [of fetch urljoin delay max_depth "Suc n" next_level results'
        "submitted @ submit max_depth level"]
    show ?thesis
      unfolding crawl_loop_step [where delay = delay and n = n, OF fm Inr [unfolded x]]
      by auto
  qed
qed

subsection \<open>The whole crawl\<close>

text \<open>\<^verbatim>\<open>root_url\<close> after \<^verbatim>\<open>if not root_url.endswith("/"): root_url += "/"\<close>.\<close>

definition with_slash :: "string \<Rightarrow> string" where
  "with_slash root_url = (if \<not> endswith root_url ''/'' then root_url @ ''/'' else root_url)"

lemma crawl_directory_unfold:
  "crawl_directory fetch urljoin delay root_url max_depth workers =
     (if workers \<le> 0 then ([], Inl ValueError)
      else (fst (crawl_loop fetch urljoin delay max_depth 0 [(with_slash root_url, 0, [])] [] []),
            case snd (crawl_loop fetch urljoin delay max_depth 0
                        [(with_slash root_url, 0, [])] [] []) of
              Inl e \<Rightarrow> Inl e
            | Inr results \<Rightarrow> Inr (sort_key (\<lambda>x. fst (snd x)) results)))"
  by (simp add: crawl_directory_def with_slash_def Let_def split: prod.splits sum.splits)

lemma crawl_directory_post:
  assumes "0 < workers"
  shows "loop_post fetch urljoin max_depth [(with_slash root_url, 0, [])] []
           (fst (crawl_directory fetch urljoin delay root_url max_depth workers))
           (snd (crawl_directory fetch urljoin delay root_url max_depth workers))"
proof -
  from crawl_loop_post [of fetch urljoin delay max_depth 0 "[(with_slash root_url, 0, [])]" "[]" "[]"]
  have "loop_post fetch urljoin max_depth [(with_slash root_url, 0, [])] []
          (fst (crawl_loop fetch urljoin delay max_depth 0 [(with_slash root_url, 0, [])] [] []))
          (snd (crawl_loop fetch urljoin delay max_depth 0 [(with_slash root_url, 0, [])] [] []))"
    by auto
  with assms show ?thesis
    unfolding crawl_directory_unfold loop_post_def
    by (auto split: sum.splits)
qed

lemma as_completed_single [simp]: "as_completed d [x] = [x]"
  by (simp add: as_completed_def)

lemma submit_item_children:
  "max_depth \<le> depth + 1 \<Longrightarrow>
   submit max_depth (item_children fetch urljoin (url, depth, prefix)) = []"
  by (auto simp: submit_def item_children_def child_of_def filter_empty_conv split: prod.splits)

lemma crawl_directory_depth_one:
  assumes "0 < workers"
  shows "crawl_directory fetch urljoin delay root_url 1 workers =
     ([(with_slash root_url, 0, [])],
      case fetch (with_slash root_url) of
        Inl e \<Rightarrow> if caught e then Inr [] else Inl e
      | Inr html \<Rightarrow>
          (case parse_links urljoin html (with_slash root_url) of
             Inl e \<Rightarrow> Inl e
           | Inr links \<Rightarrow>
               Inr (sort_key (\<lambda>x. fst (snd x)) (map (entry_of []) links))))"
proof -
  let ?r = "(with_slash root_url, 0::int, [] :: string)"
  have fm: "submit 1 [?r] = [?r]"
    by (simp add: submit_def)
  then have ne: "submit 1 [?r] \<noteq> []"
    by simp
  have raise: "crawl_directory fetch urljoin delay root_url 1 workers = ([?r], Inl e)"
    if "process_completed fetch urljoin (as_completed (delay 0) (submit 1 [?r])) [] [] = Inl e"
    for e
    using crawl_loop_raise [where delay = delay and n = 0, OF ne that, of "[]"] assms
    by (simp add: crawl_directory_unfold fm)
  show ?thesis
  proof (cases "fetch (with_slash root_url)")
    case (Inl e)
    show ?thesis
    proof (cases "caught e")
      case True
      with Inl have "process_completed fetch urljoin (as_completed (delay 0) (submit 1 [?r])) [] [] =
          Inr ([], [])"
        by (simp add: fm)
      from crawl_loop_step [where delay = delay and n = 0, OF ne this, of "[]"] assms Inl True
      show ?thesis
        by (simp add: crawl_directory_unfold fm crawl_loop_stop)
    next
      case False
      with Inl have "process_completed fetch urljoin (as_completed (delay 0) (submit 1 [?r])) [] [] =
          Inl e"
        by (simp add: fm)
      from raise [OF this] Inl False show ?thesis
        by simp
    qed
  next
    case (Inr html)
    show ?thesis
    proof (cases "parse_links urljoin html (with_slash root_url)")
      case (Inl e)
      with Inr have "process_completed fetch urljoin (as_completed (delay 0) (submit 1 [?r])) [] [] =
          Inl e"
        by (simp add: fm)
      from raise [OF this] Inr Inl show ?thesis
        by simp
    next
      case links: (Inr ls)
      from Inr links
      have "process_completed fetch urljoin (as_completed (delay 0) (submit 1 [?r])) [] [] =
          Inr (map (entry_of []) ls, map (child_of 0 []) (filter is_dir ls))"
        by (simp add: fm add_links_eq)
      from crawl_loop_step [where delay = delay and n = 0, OF ne this, of "[]"]
      have "crawl_loop fetch urljoin delay 1 0 [?r] [] [] =
          crawl_loop fetch urljoin delay 1 (Suc 0) (map (child_of 0 []) (filter is_dir ls))
            (map (entry_of []) ls) [?r]"
        by (simp add: fm)
      also have "\<dots> = ([?r], Inr (map (entry_of []) ls))"
        by (rule crawl_loop_stop)
           (auto simp: submit_def child_of_def filter_empty_conv split: prod.splits)
      finally show ?thesis
        using assms Inr links by (simp add: crawl_directory_unfold)
    qed
  qed
qed

text \<open>The URLs of the directory entries of a list of entries.\<close>

definition dir_urls :: "entry list \<Rightarrow> string list" where
  "dir_urls rs = map (\<lambda>e. snd (snd e)) (filter (\<lambda>e. fst e = ''d'') rs)"

lemma dir_urls_item_entries:
  "map fst (item_children fetch urljoin it) = dir_urls (item_entries fetch urljoin it)"
proof -
  obtain url depth prefix where it: "it = (url, depth, prefix)"
    by (cases it)
  have "map fst (map (child_of depth prefix) (filter is_dir ls)) =
        dir_urls (map (entry_of prefix) ls)" for ls
    by (induction ls) (auto simp: dir_urls_def child_of_def entry_of_def is_dir_def)
  then show ?thesis
    by (simp add: it item_children_def item_entries_def)
qed

lemma dir_urls_append [simp]: "dir_urls (xs @ ys) = dir_urls xs @ dir_urls ys"
  by (simp add: dir_urls_def)

lemma dir_urls_entries_of:
  "map fst (children_of fetch urljoin xs) = dir_urls (entries_of fetch urljoin xs)"
  by (induction xs)
     (simp_all add: children_of_def entries_of_def dir_urls_item_entries, simp add: dir_urls_def)

lemma mset_dir_urls_cong: "mset xs = mset ys \<Longrightarrow> mset (dir_urls xs) = mset (dir_urls ys)"
  unfolding dir_urls_def mset_map mset_filter by simp

lemma distinct_mset_subseteq:
  assumes "mset xs \<subseteq># mset ys" and "distinct ys"
  shows "distinct xs"
proof -
  have "count (mset xs) a \<le> 1" for a
  proof -
    have "count (mset xs) a \<le> count (mset ys) a"
      using assms(1) by (rule mset_subset_eq_count)
    also have "\<dots> \<le> 1"
      using assms(2) by (simp add: distinct_count_atmost_1)
    finally show ?thesis .
  qed
  then show ?thesis
    unfolding distinct_count_atmost_1
    by (metis count_mset_0_iff le_antisym less_one not_less)
qed

text \<open>Two runs agree up to the order of what they collected.\<close>

definition same_outcome ::
  "item list \<times> (exn + entry list) \<Rightarrow> item list \<times> (exn + entry list) \<Rightarrow> bool" where
  "same_outcome a b =
     (mset (fst a) = mset (fst b) \<and>
      (case snd a of
         Inl e \<Rightarrow> isl (snd b)
       | Inr rs \<Rightarrow> (case snd b of Inl e \<Rightarrow> False | Inr rs' \<Rightarrow> mset rs = mset rs')))"

lemma crawl_loop_perm:
  "mset level = mset level' \<Longrightarrow> mset results = mset results' \<Longrightarrow>
   mset submitted = mset submitted' \<Longrightarrow>
   same_outcome (crawl_loop fetch urljoin delay max_depth n level results submitted)
     (crawl_loop fetch urljoin delay' max_depth n' level' results' submitted')"
proof (induction fetch urljoin delay max_depth n level results submitted
    arbitrary: n' level' results' submitted' rule: crawl_loop.induct)
  case (1 fetch urljoin delay max_depth n level results submitted)
  let ?fm = "submit max_depth level"
  let ?fm' = "submit max_depth level'"
  let ?ac = "as_completed (delay n) ?fm"
  let ?ac' = "as_completed (delay' n') ?fm'"
  have mfm: "mset ?fm = mset ?fm'"
    using "1.prems"(1) by (rule mset_submit_cong)
  then have sfm: "set ?fm = set ?fm'"
    by (rule mset_eq_setD)
  have mac: "mset ?ac = mset ?ac'"
    by (simp add: mset_as_completed mfm)
  show ?case
  proof (cases "?fm = []")
    case True
    with mfm have "?fm' = []"
      by simp
    with True "1.prems" show ?thesis
      by (simp add: crawl_loop_stop same_outcome_def)
  next
    case fm: False
    with mfm have fm': "?fm' \<noteq> []"
      by auto
    from fm have lv: "level \<noteq> []"
      by auto
    show ?thesis
    proof (cases "\<exists>it \<in> set ?fm. item_raises fetch urljoin it")
      case True
      then have "\<exists>it \<in> set ?ac. item_raises fetch urljoin it"
        and "\<exists>it \<in> set ?ac'. item_raises fetch urljoin it"
        by (simp_all add: set_as_completed sfm)
      from process_completed_Inl [OF this(1), of results "[]"]
        process_completed_Inl [OF this(2), of results' "[]"]
      obtain e e' where
        e: "process_completed fetch urljoin ?ac results [] = Inl e" and
        e': "process_completed fetch urljoin ?ac' results' [] = Inl e'"
        by blast
      show ?thesis
        unfolding crawl_loop_raise [where delay = delay and n = n, OF fm e]
          crawl_loop_raise [where delay = delay' and n = n', OF fm' e']
        using "1.prems"(3) mfm by (simp add: same_outcome_def)
    next
      case False
      then have ok: "\<forall>it \<in> set ?ac. \<not> item_raises fetch urljoin it"
        and ok': "\<forall>it \<in> set ?ac'. \<not> item_raises fetch urljoin it"
        by (simp_all add: set_as_completed sfm)
      have pc: "process_completed fetch urljoin ?ac results [] =
          Inr (results @ entries_of fetch urljoin ?ac, children_of fetch urljoin ?ac)"
        using process_completed_Inr [OF ok, of results "[]"]
        by (simp add: entries_of_def children_of_def)
      have pc': "process_completed fetch urljoin ?ac' results' [] =
          Inr (results' @ entries_of fetch urljoin ?ac', children_of fetch urljoin ?ac')"
        using process_completed_Inr [OF ok', of results' "[]"]
        by (simp add: entries_of_def children_of_def)
      have "same_outcome
          (crawl_loop fetch urljoin delay max_depth (Suc n) (children_of fetch urljoin ?ac)
             (results @ entries_of fetch urljoin ?ac) (submitted @ ?fm))
          (crawl_loop fetch urljoin delay' max_depth (Suc n') (children_of fetch urljoin ?ac')
             (results' @ entries_of fetch urljoin ?ac') (submitted' @ ?fm'))"
      proof (rule "1.IH" [OF lv refl fm pc refl])
        show "mset (children_of fetch urljoin ?ac) = mset (children_of fetch urljoin ?ac')"
          using mac by (rule mset_children_of_cong)
        show "mset (results @ entries_of fetch urljoin ?ac) =
              mset (results' @ entries_of fetch urljoin ?ac')"
          using mset_entries_of_cong [OF mac, of fetch urljoin] "1.prems"(2) by simp
        show "mset (submitted @ ?fm) = mset (submitted' @ ?fm')"
          using "1.prems"(3) mfm by simp
      qed
      then show ?thesis
        unfolding crawl_loop_step [where delay = delay and n = n, OF fm pc]
          crawl_loop_step [where delay = delay' and n = n', OF fm' pc'] .
    qed
  qed
qed

lemma sort_key_mset_distinct:
  assumes "mset xs = mset ys" and "distinct (map f xs)"
  shows "sort_key f xs = sort_key f ys"
proof (rule sort_key_inj_key_eq)
  show "mset xs = mset (sort_key f ys)"
    using assms(1) by simp
  show "inj_on f (set xs)"
    using assms(2) by (simp add: distinct_map)
  show "sorted (map f (sort_key f ys))"
    by simp
qed

subsection \<open>Paths and prefixes\<close>

text \<open>The part of a path that one link adds to the prefix of its page.\<close>

definition seg :: "link \<Rightarrow> string" where
  "seg l = (case l of (name, link_url, d) \<Rightarrow> name @ (if d then ''/'' else []))"

text \<open>The links of a page have plain names: no name is empty or holds a \<^verbatim>\<open>/\<close>, and no two
  links of the page add the same segment.\<close>

definition plain_names :: "link list \<Rightarrow> bool" where
  "plain_names ls =
     (distinct (map seg ls) \<and> (\<forall>l \<in> set ls. fst l \<noteq> [] \<and> CHR ''/'' \<notin> set (fst l)))"

definition slashes :: "string \<Rightarrow> nat" where
  "slashes p = length (filter (\<lambda>c. c = CHR ''/'') p)"

definition closed :: "string \<Rightarrow> bool" where
  "closed p = (p = [] \<or> last p = CHR ''/'')"

lemma split_unique:
  assumes "closed p1" "closed p2" "CHR ''/'' \<notin> set n1" "CHR ''/'' \<notin> set n2"
    and eq: "p1 @ n1 = p2 @ n2"
  shows "p1 = p2 \<and> n1 = n2"
proof -
  have tw: "takeWhile (\<lambda>c. c \<noteq> CHR ''/'') (rev (p @ n)) = rev n"
    if "closed p" "CHR ''/'' \<notin> set n" for p n
  proof -
    have "takeWhile (\<lambda>c. c \<noteq> CHR ''/'') (rev p) = []"
      using that(1) by (cases p rule: rev_cases) (auto simp: closed_def)
    moreover have "takeWhile (\<lambda>c. c \<noteq> CHR ''/'') (rev n @ rev p) =
        rev n @ takeWhile (\<lambda>c. c \<noteq> CHR ''/'') (rev p)"
      by (rule takeWhile_append2) (use that(2) in auto)
    ultimately show ?thesis
      by simp
  qed
  from tw [OF assms(1,3)] tw [OF assms(2,4)] eq have "rev n1 = rev n2"
    by simp
  then have "n1 = n2"
    by simp
  with eq show ?thesis
    by simp
qed

lemma seg_path [simp]: "fst (snd (entry_of p l)) = p @ seg l"
  by (cases l) (simp add: entry_of_def seg_def)

lemma seg_prefix: "is_dir l \<Longrightarrow> snd (snd (child_of depth p l)) = p @ seg l"
  by (cases l) (simp add: child_of_def seg_def is_dir_def)

lemma seg_kind: "fst (entry_of p l) = ''d'' \<longleftrightarrow> is_dir l"
  by (cases l) (simp add: entry_of_def is_dir_def)

lemma slashes_append [simp]: "slashes (p @ q) = slashes p + slashes q"
  by (simp add: slashes_def)

lemma slashes_seg:
  "CHR ''/'' \<notin> set (fst l) \<Longrightarrow> slashes (seg l) = (if is_dir l then 1 else 0)"
  by (cases l) (auto simp: seg_def slashes_def is_dir_def filter_empty_conv)

lemma closed_seg:
  assumes "fst l \<noteq> []" "CHR ''/'' \<notin> set (fst l)"
  shows "closed (p @ seg l) \<longleftrightarrow> is_dir l"
proof (cases l)
  case (fields name link_url d)
  with assms have ne: "name \<noteq> []" and ns: "CHR ''/'' \<notin> set name"
    by auto
  from last_in_set [OF ne] ns have "last name \<noteq> CHR ''/''"
    by auto
  with ne fields show ?thesis
    by (cases d) (simp_all add: seg_def closed_def is_dir_def)
qed

lemma seg_unique:
  assumes c: "closed p1" "closed p2"
    and l1: "fst l1 \<noteq> []" "CHR ''/'' \<notin> set (fst l1)"
    and l2: "fst l2 \<noteq> []" "CHR ''/'' \<notin> set (fst l2)"
    and eq: "p1 @ seg l1 = p2 @ seg l2"
  shows "p1 = p2 \<and> seg l1 = seg l2"
proof -
  from closed_seg [OF l1, of p1] closed_seg [OF l2, of p2] eq
  have d: "is_dir l1 \<longleftrightarrow> is_dir l2"
    by simp
  obtain n1 u1 d1 where f1: "l1 = (n1, u1, d1)"
    by (cases l1)
  obtain n2 u2 d2 where f2: "l2 = (n2, u2, d2)"
    by (cases l2)
  from d f1 f2 have dd: "d1 = d2"
    by (simp add: is_dir_def)
  from eq f1 f2 dd have "p1 @ n1 = p2 @ n2"
    by (cases d2) (simp_all add: seg_def)
  from split_unique [OF c _ _ this] l1 l2 f1 f2 have "p1 = p2 \<and> n1 = n2"
    by simp
  with f1 f2 dd show ?thesis
    by (simp add: seg_def)
qed

text \<open>The state of the loop before level \<open>k\<close>: the items of the level have distinct
  prefixes of \<open>k\<close> closed segments, and the entries so far have distinct paths that
  lie above the level.\<close>

definition level_inv :: "nat \<Rightarrow> item list \<Rightarrow> entry list \<Rightarrow> bool" where
  "level_inv k level results =
     (distinct (map (\<lambda>it. snd (snd it)) level) \<and>
      (\<forall>it \<in> set level. closed (snd (snd it)) \<and> slashes (snd (snd it)) = k) \<and>
      distinct (map (\<lambda>e. fst (snd e)) results) \<and>
      (\<forall>e \<in> set results.
         slashes (fst (snd e)) < k \<or> (slashes (fst (snd e)) = k \<and> closed (fst (snd e)))))"

lemma item_entries_paths:
  "map (\<lambda>e. fst (snd e)) (item_entries fetch urljoin it) =
   map (\<lambda>l. snd (snd it) @ seg l) (page_links fetch urljoin it)"
  by (cases it) (simp add: item_entries_def comp_def)

lemma entries_of_distinct:
  assumes "distinct (map (\<lambda>it. snd (snd it)) items)"
    and "\<forall>it \<in> set items. closed (snd (snd it)) \<and> plain_names (page_links fetch urljoin it)"
  shows "distinct (map (\<lambda>e. fst (snd e)) (entries_of fetch urljoin items))"
  using assms
proof (induction items)
  case Nil
  show ?case by simp
next
  case (Cons it items)
  let ?p = "snd (snd it)"
  let ?ls = "page_links fetch urljoin it"
  from Cons.prems have pl: "plain_names ?ls" and cl: "closed ?p"
    by simp_all
  have own: "distinct (map (\<lambda>e. fst (snd e)) (item_entries fetch urljoin it))"
  proof -
    have "distinct (map ((@) ?p) xs)" if "distinct xs" for xs :: "string list"
      using that by (simp add: distinct_map inj_on_def)
    moreover have "distinct (map seg ?ls)"
      using pl by (simp add: plain_names_def)
    ultimately have "distinct (map ((@) ?p) (map seg ?ls))"
      by blast
    then show ?thesis
      by (simp add: item_entries_paths comp_def)
  qed
  have rest: "distinct (map (\<lambda>e. fst (snd e)) (entries_of fetch urljoin items))"
    using Cons by simp
  have disj: "fst (snd e) \<noteq> fst (snd e')"
    if e: "e \<in> set (item_entries fetch urljoin it)"
      and e': "e' \<in> set (entries_of fetch urljoin items)" for e e'
  proof
    assume eq: "fst (snd e) = fst (snd e')"
    from e obtain l where l: "l \<in> set ?ls" "fst (snd e) = ?p @ seg l"
      using item_entries_paths [of fetch urljoin it]
      by (metis (no_types, lifting) image_iff list.set_map)
    from e' obtain it' where it': "it' \<in> set items"
      and "e' \<in> set (item_entries fetch urljoin it')"
      by (auto simp: entries_of_def)
    then obtain l' where l': "l' \<in> set (page_links fetch urljoin it')"
      "fst (snd e') = snd (snd it') @ seg l'"
      using item_entries_paths [of fetch urljoin it']
      by (metis (no_types, lifting) image_iff list.set_map)
    from Cons.prems(2) it' have cl': "closed (snd (snd it'))"
      and pl': "plain_names (page_links fetch urljoin it')"
      by simp_all
    from pl l(1) have n: "fst l \<noteq> []" "CHR ''/'' \<notin> set (fst l)"
      by (auto simp: plain_names_def)
    from pl' l'(1) have n': "fst l' \<noteq> []" "CHR ''/'' \<notin> set (fst l')"
      by (auto simp: plain_names_def)
    from eq l(2) l'(2) have "?p @ seg l = snd (snd it') @ seg l'"
      by simp
    from seg_unique [OF cl cl' n n' this] have "?p = snd (snd it')"
      by simp
    with it' Cons.prems(1) show False
      by auto
  qed
  have "set (map (\<lambda>e. fst (snd e)) (item_entries fetch urljoin it)) \<inter>
        set (map (\<lambda>e. fst (snd e)) (entries_of fetch urljoin items)) = {}"
    using disj by auto
  moreover have "entries_of fetch urljoin (it # items) =
      item_entries fetch urljoin it @ entries_of fetch urljoin items"
    by (simp add: entries_of_def)
  ultimately show ?case
    using own rest by simp
qed


lemma new_entry_shape:
  assumes e: "e \<in> set (entries_of fetch urljoin items)"
    and items: "\<forall>it \<in> set items. closed (snd (snd it)) \<and> slashes (snd (snd it)) = k \<and>
                  plain_names (page_links fetch urljoin it)"
  shows "(slashes (fst (snd e)) = k \<and> \<not> closed (fst (snd e)) \<and> fst e \<noteq> ''d'') \<or>
         (slashes (fst (snd e)) = Suc k \<and> closed (fst (snd e)) \<and> fst e = ''d'')"
proof -
  from e obtain it where it: "it \<in> set items" and "e \<in> set (item_entries fetch urljoin it)"
    by (auto simp: entries_of_def)
  then obtain l where l: "l \<in> set (page_links fetch urljoin it)"
    and el: "e = entry_of (snd (snd it)) l"
    by (cases it) (auto simp: item_entries_def)
  from items it l have n: "fst l \<noteq> []" "CHR ''/'' \<notin> set (fst l)"
    and k: "slashes (snd (snd it)) = k"
    by (auto simp: plain_names_def)
  show ?thesis
    using closed_seg [OF n, of "snd (snd it)"] slashes_seg [OF n(2)] k
      seg_kind [of "snd (snd it)" l]
    by (simp add: el)
qed

lemma children_prefixes_item:
  "map (\<lambda>c. snd (snd c)) (item_children fetch urljoin it) =
   map (\<lambda>e. fst (snd e)) (filter (\<lambda>e. fst e = ''d'') (item_entries fetch urljoin it))"
proof -
  obtain url depth prefix where it: "it = (url, depth, prefix)"
    by (cases it)
  have "map (\<lambda>c. snd (snd c)) (map (child_of depth prefix) (filter is_dir ls)) =
        map (\<lambda>e. fst (snd e)) (filter (\<lambda>e. fst e = ''d'') (map (entry_of prefix) ls))" for ls
    by (induction ls) (simp_all add: seg_prefix seg_kind)
  then show ?thesis
    by (simp add: it item_children_def item_entries_def)
qed

lemma children_prefixes:
  "map (\<lambda>c. snd (snd c)) (children_of fetch urljoin items) =
   map (\<lambda>e. fst (snd e)) (filter (\<lambda>e. fst e = ''d'') (entries_of fetch urljoin items))"
  by (induction items) (simp_all add: children_of_def entries_of_def children_prefixes_item)

lemma level_step:
  assumes inv: "level_inv k level results"
    and sub: "set items \<subseteq> set level"
    and dist: "distinct (map (\<lambda>it. snd (snd it)) items)"
    and pl: "\<forall>it \<in> set items. plain_names (page_links fetch urljoin it)"
  shows "level_inv (Suc k) (children_of fetch urljoin items)
           (results @ entries_of fetch urljoin items)"
proof -
  let ?new = "entries_of fetch urljoin items"
  let ?path = "\<lambda>e :: entry. fst (snd e)"
  from inv sub pl have items: "\<forall>it \<in> set items. closed (snd (snd it)) \<and>
      slashes (snd (snd it)) = k \<and> plain_names (page_links fetch urljoin it)"
    by (auto simp: level_inv_def)
  note shape = new_entry_shape [OF _ items]
  have dnew: "distinct (map ?path ?new)"
    using dist items by (intro entries_of_distinct) auto
  have old: "\<forall>e \<in> set results. slashes (?path e) < k \<or> (slashes (?path e) = k \<and> closed (?path e))"
    and dold: "distinct (map ?path results)"
    using inv by (simp_all add: level_inv_def)
  have ne: "?path e \<noteq> ?path e'" if "e \<in> set results" "e' \<in> set ?new" for e e'
    using old that(1) shape [OF that(2)] by fastforce
  have disj: "set (map ?path results) \<inter> set (map ?path ?new) = {}"
    unfolding set_map using ne by blast
  have 1: "distinct (map ?path (results @ ?new))"
    using dold dnew disj by simp
  have 2: "\<forall>e \<in> set (results @ ?new).
      slashes (?path e) < Suc k \<or> (slashes (?path e) = Suc k \<and> closed (?path e))"
    using old shape by auto
  have 3: "distinct (map (\<lambda>c. snd (snd c)) (children_of fetch urljoin items))"
    unfolding children_prefixes using dnew by (rule distinct_map_filter)
  have 4: "closed (snd (snd c)) \<and> slashes (snd (snd c)) = Suc k"
    if "c \<in> set (children_of fetch urljoin items)" for c
  proof -
    from that have "snd (snd c) \<in> set (map (\<lambda>c. snd (snd c)) (children_of fetch urljoin items))"
      by simp
    then obtain e where "e \<in> set ?new" "fst e = ''d''" "snd (snd c) = ?path e"
      unfolding children_prefixes by auto
    with shape [of e] show ?thesis
      by auto
  qed
  from 1 2 3 4 show ?thesis
    unfolding level_inv_def by blast
qed

lemma crawl_loop_distinct_paths:
  assumes "level_inv k level results"
    and "\<forall>it \<in> set (fst (crawl_loop fetch urljoin delay max_depth n level results submitted)).
           plain_names (page_links fetch urljoin it)"
    and "snd (crawl_loop fetch urljoin delay max_depth n level results submitted) = Inr rs"
  shows "distinct (map (\<lambda>e. fst (snd e)) rs)"
  using assms
proof (induction fetch urljoin delay max_depth n level results submitted arbitrary: k
    rule: crawl_loop.induct)
  case (1 fetch urljoin delay max_depth n level results submitted)
  let ?fm = "submit max_depth level"
  let ?ac = "as_completed (delay n) ?fm"
  show ?case
  proof (cases "?fm = []")
    case True
    with "1.prems"(1,3) show ?thesis
      by (simp add: crawl_loop_stop level_inv_def)
  next
    case fm: False
    then have lv: "level \<noteq> []"
      by auto
    show ?thesis
    proof (cases "process_completed fetch urljoin ?ac results []")
      case (Inl e)
      from "1.prems"(3) show ?thesis
        by (simp add: crawl_loop_raise [where delay = delay and n = n, OF fm Inl])
    next
      case (Inr x)
      obtain results' next_level where x: "x = (results', next_level)"
        by (cases x)
      note pc = Inr [unfolded x]
      from process_completed_cases [OF pc]
      have r': "results' = results @ entries_of fetch urljoin ?ac"
        and nl: "next_level = children_of fetch urljoin ?ac"
        by (simp_all add: entries_of_def children_of_def)
      note step = crawl_loop_step [where delay = delay and n = n, OF fm pc, of submitted]
      from crawl_loop_submitted [of fetch urljoin delay max_depth n level results submitted]
      have "set ?fm \<subseteq> set (fst (crawl_loop fetch urljoin delay max_depth n level results submitted))"
        by auto
      with "1.prems"(2) have pl: "\<forall>it \<in> set ?ac. plain_names (page_links fetch urljoin it)"
        by (auto simp: set_as_completed)
      have sub: "set ?ac \<subseteq> set level"
        by (auto simp: set_as_completed submit_def)
      have "distinct (map (\<lambda>it. snd (snd it)) ?fm)"
        unfolding submit_def using "1.prems"(1)
        by (intro distinct_map_filter) (simp add: level_inv_def)
      moreover have "mset (map (\<lambda>it. snd (snd it)) ?ac) = mset (map (\<lambda>it. snd (snd it)) ?fm)"
        by (simp add: mset_as_completed)
      ultimately have dist: "distinct (map (\<lambda>it. snd (snd it)) ?ac)"
        using mset_eq_imp_distinct_iff by blast
      from level_step [OF "1.prems"(1) sub dist pl]
      have inv': "level_inv (Suc k) next_level results'"
        by (simp add: r' nl)
      show ?thesis
        using "1.IH" [OF lv refl fm pc refl inv'] "1.prems"(2,3)
        unfolding step by simp
    qed
  qed
qed

subsection \<open>Which anchors \<^verbatim>\<open>_parse_links\<close> keeps\<close>

text \<open>The kept anchors are resolved in page order: each gives the link (name, URL,
  directory flag), and the first href that \<^verbatim>\<open>urljoin\<close> rejects raises its exception.\<close>

fun build_links ::
  "(string \<Rightarrow> string \<Rightarrow> exn + string) \<Rightarrow> string \<Rightarrow> (string \<times> string) list \<Rightarrow>
   exn + link list" where
  "build_links urljoin base_url [] = Inr []"
| "build_links urljoin base_url ((href, text) # ms) =
     (case urljoin base_url href of
        Inl e \<Rightarrow> Inl e
      | Inr abs_url \<Rightarrow>
          (case build_links urljoin base_url ms of
             Inl e \<Rightarrow> Inl e
           | Inr links \<Rightarrow> Inr ((rstrip_slash (strip text), abs_url, endswith href ''/'') # links)))"

text \<open>The filtering rules in the words of the specification: the anchor at place \<open>i\<close>
  of a page is discarded when its href is empty or \<^verbatim>\<open>../\<close>, begins with \<^verbatim>\<open>?\<close>, \<^verbatim>\<open>#\<close> or
  \<^verbatim>\<open>/\<close>, contains \<^verbatim>\<open>://\<close>, or equals the href of an earlier anchor of the page.\<close>

definition rejected :: "string \<Rightarrow> bool" where
  "rejected href =
     (href = [] \<or> href = ''../'' \<or> startswith href ''?'' \<or> startswith href ''#'' \<or>
      startswith href ''/'' \<or> contains href ''://'')"

definition anchor_discarded :: "(string \<times> string) list \<Rightarrow> nat \<Rightarrow> bool" where
  "anchor_discarded ms i =
     (rejected (fst (ms ! i)) \<or> (\<exists>j<i. fst (ms ! j) = fst (ms ! i)))"

definition kept_from :: "string set \<Rightarrow> (string \<times> string) list \<Rightarrow> (string \<times> string) list" where
  "kept_from seen ms =
     map ((!) ms)
       (filter (\<lambda>i. \<not> rejected (fst (ms ! i)) \<and> fst (ms ! i) \<notin> seen \<and>
                     (\<forall>j<i. fst (ms ! j) \<noteq> fst (ms ! i)))
          [0..<length ms])"

lemma kept_from_Nil [simp]: "kept_from seen [] = []"
  by (simp add: kept_from_def)

lemma kept_from_Cons:
  "kept_from seen ((h, t) # ms) =
     (if \<not> rejected h \<and> h \<notin> seen then (h, t) # kept_from (insert h seen) ms
      else kept_from (insert h seen) ms)"
proof -
  let ?P = "\<lambda>seen ms i. \<not> rejected (fst (ms ! i)) \<and> fst (ms ! i) \<notin> seen \<and>
                     (\<forall>j<i. fst (ms ! j) \<noteq> fst (ms ! i))"
  have shift: "?P seen ((h, t) # ms) (Suc i) = ?P (insert h seen) ms i" for i
  proof -
    have "(\<forall>j<Suc i. fst (((h, t) # ms) ! j) \<noteq> x) = (h \<noteq> x \<and> (\<forall>j<i. fst (ms ! j) \<noteq> x))" for x
      by (auto simp: less_Suc_eq_0_disj)
    then show ?thesis
      by auto
  qed
  have "[0..<length ((h, t) # ms)] = 0 # map Suc [0..<length ms]"
    by (simp add: upt_conv_Cons map_Suc_upt del: upt_Suc)
  then have "kept_from seen ((h, t) # ms) =
      (if ?P seen ((h, t) # ms) 0 then [(h, t)] else []) @
      map ((!) ((h, t) # ms)) (filter (?P seen ((h, t) # ms)) (map Suc [0..<length ms]))"
    unfolding kept_from_def by simp
  also have "map ((!) ((h, t) # ms)) (filter (?P seen ((h, t) # ms)) (map Suc [0..<length ms])) =
      map ((!) ms) (filter (?P (insert h seen) ms) [0..<length ms])"
  proof -
    have "?P seen ((h, t) # ms) \<circ> Suc = ?P (insert h seen) ms"
      by (rule ext) (simp only: comp_apply shift)
    then show ?thesis
      unfolding filter_map by (simp add: comp_def)
  qed
  finally show ?thesis
    by (simp add: kept_from_def)
qed

lemma kept_from_insert_rejected:
  "rejected h \<or> h \<in> seen \<Longrightarrow> kept_from (insert h seen) ms = kept_from seen ms"
  unfolding kept_from_def
  by (intro arg_cong [where f = "map ((!) ms)"] filter_cong refl) auto

lemma parse_loop_kept:
  "parse_loop urljoin base_url ms seen links =
     (case build_links urljoin base_url (kept_from seen ms) of
        Inl e \<Rightarrow> Inl e
      | Inr ls \<Rightarrow> Inr (links @ ls))"
proof (induction ms arbitrary: seen links)
  case Nil
  show ?case by simp
next
  case (Cons m ms)
  obtain h t where m: "m = (h, t)"
    by (cases m)
  show ?case
  proof (cases "rejected h \<or> h \<in> seen")
    case True
    then have "parse_loop urljoin base_url (m # ms) seen links =
               parse_loop urljoin base_url ms seen links"
      by (auto simp: m rejected_def)
    with True show ?thesis
      by (auto simp: m Cons.IH kept_from_Cons kept_from_insert_rejected)
  next
    case False
    then have "parse_loop urljoin base_url (m # ms) seen links =
        (case urljoin base_url h of
           Inl e \<Rightarrow> Inl e
         | Inr abs_url \<Rightarrow>
             parse_loop urljoin base_url ms (insert h seen)
               (links @ [(rstrip_slash (strip t), abs_url, endswith h ''/'')]))"
      by (auto simp: m rejected_def)
    with False show ?thesis
      by (simp add: m Cons.IH kept_from_Cons split: sum.splits)
  qed
qed

lemma parse_links_kept:
  "parse_links urljoin html base_url =
     build_links urljoin base_url
       (map ((!) (finditer html))
          (filter (\<lambda>i. \<not> anchor_discarded (finditer html) i) [0..<length (finditer html)]))"
  unfolding parse_links_def parse_loop_kept kept_from_def anchor_discarded_def
  by (simp split: sum.splits)

lemma build_links_Inr:
  "build_links urljoin base_url ms = Inr links \<Longrightarrow>
   list_all2 (\<lambda>(href, text) l. urljoin base_url href = Inr (fst (snd l)) \<and>
                l = (rstrip_slash (strip text), fst (snd l), endswith href ''/'')) ms links"
proof (induction ms arbitrary: links)
  case Nil
  then show ?case by simp
next
  case (Cons m ms)
  obtain h t where m: "m = (h, t)"
    by (cases m)
  from Cons.prems obtain u ls where "urljoin base_url h = Inr u"
    and "build_links urljoin base_url ms = Inr ls"
    and "links = (rstrip_slash (strip t), u, endswith h ''/'') # ls"
    by (auto simp: m split: sum.splits)
  with Cons.IH [of ls] show ?case
    by (simp add: m)
qed

text \<open>What \<^verbatim>\<open>strip\<close>, \<^verbatim>\<open>rstrip("/")\<close> and \<^verbatim>\<open>endswith("/")\<close> compute, said without them: the
  name is what is left of the anchor text once the white space at both ends, and then
  the slashes at the end, are taken away.\<close>

definition name_of_text :: "string \<Rightarrow> string \<Rightarrow> bool" where
  "name_of_text text name =
     (\<exists>l r k. text = l @ name @ replicate k (CHR ''/'') @ r \<and>
        (\<forall>c \<in> set l \<union> set r. isspace c) \<and>
        (name @ replicate k (CHR ''/'') = [] \<or>
         \<not> isspace (hd (name @ replicate k (CHR ''/''))) \<and>
         \<not> isspace (last (name @ replicate k (CHR ''/'')))) \<and>
        (name = [] \<or> last name \<noteq> CHR ''/''))"

lemma strip_decomp:
  "\<exists>l r. text = l @ strip text @ r \<and> (\<forall>c \<in> set l \<union> set r. isspace c) \<and>
     (strip text = [] \<or> \<not> isspace (hd (strip text)) \<and> \<not> isspace (last (strip text)))"
proof -
  let ?d = "dropWhile isspace text"
  let ?l = "takeWhile isspace text"
  let ?r = "rev (takeWhile isspace (rev ?d))"
  have d: "?d = strip text @ ?r"
  proof -
    have "rev (dropWhile isspace (rev ?d)) @ rev (takeWhile isspace (rev ?d)) = rev (rev ?d)"
      by (simp only: rev_append [symmetric] takeWhile_dropWhile_id)
    then show ?thesis
      by (simp add: strip_def)
  qed
  have "text = ?l @ ?d"
    by simp
  with d have 1: "text = ?l @ strip text @ ?r"
    by simp
  have 2: "\<forall>c \<in> set ?l \<union> set ?r. isspace c"
    by (auto dest: set_takeWhileD)
  have 3: "\<not> isspace (hd (strip text)) \<and> \<not> isspace (last (strip text))" if ne: "strip text \<noteq> []"
  proof -
    from ne have dn: "dropWhile isspace (rev ?d) \<noteq> []"
      by (simp add: strip_def)
    then have "\<not> isspace (hd (dropWhile isspace (rev ?d)))"
      by (rule hd_dropWhile)
    moreover have "last (strip text) = hd (dropWhile isspace (rev ?d))"
      using dn by (simp add: strip_def last_rev)
    moreover have "hd (strip text) = hd ?d"
      using d ne by (metis hd_append2)
    moreover have "?d \<noteq> []"
      using d ne by (metis Nil_is_append_conv)
    then have "\<not> isspace (hd ?d)"
      by (rule hd_dropWhile)
    ultimately show ?thesis
      by simp
  qed
  from 1 2 3 show ?thesis
    by blast
qed

lemma rstrip_slash_decomp:
  "\<exists>k. s = rstrip_slash s @ replicate k (CHR ''/'') \<and>
     (rstrip_slash s = [] \<or> last (rstrip_slash s) \<noteq> CHR ''/'')"
proof -
  let ?P = "\<lambda>c. c = CHR ''/''"
  let ?t = "takeWhile ?P (rev s)"
  have "rev (dropWhile ?P (rev s)) @ rev ?t = rev (rev s)"
    by (simp only: rev_append [symmetric] takeWhile_dropWhile_id)
  then have s: "s = rstrip_slash s @ rev ?t"
    by (simp add: rstrip_slash_def)
  have "\<forall>c \<in> set (rev ?t). c = CHR ''/''"
    by (auto dest: set_takeWhileD)
  then have "replicate (length (rev ?t)) (CHR ''/'') = rev ?t"
    by (rule replicate_length_same)
  with s have 1: "s = rstrip_slash s @ replicate (length (rev ?t)) (CHR ''/'')"
    by simp
  have 2: "last (rstrip_slash s) \<noteq> CHR ''/''" if "rstrip_slash s \<noteq> []"
  proof -
    from that have dn: "dropWhile ?P (rev s) \<noteq> []"
      by (simp add: rstrip_slash_def)
    then have "\<not> ?P (hd (dropWhile ?P (rev s)))"
      by (rule hd_dropWhile)
    with dn show ?thesis
      by (simp add: rstrip_slash_def last_rev)
  qed
  from 1 2 show ?thesis
    by blast
qed

lemma name_of_text_strip: "name_of_text text (rstrip_slash (strip text))"
proof -
  from strip_decomp [of "text"] obtain l r where
    t: "text = l @ strip text @ r" and ws: "\<forall>c \<in> set l \<union> set r. isspace c" and
    ends: "strip text = [] \<or> \<not> isspace (hd (strip text)) \<and> \<not> isspace (last (strip text))"
    by blast
  from rstrip_slash_decomp [of "strip text"] obtain k where
    s: "strip text = rstrip_slash (strip text) @ replicate k (CHR ''/'')" and
    nl: "rstrip_slash (strip text) = [] \<or> last (rstrip_slash (strip text)) \<noteq> CHR ''/''"
    by blast
  have "text = l @ rstrip_slash (strip text) @ replicate k (CHR ''/'') @ r"
    using t s by (metis append.assoc)
  moreover have "rstrip_slash (strip text) @ replicate k (CHR ''/'') = [] \<or>
      \<not> isspace (hd (rstrip_slash (strip text) @ replicate k (CHR ''/''))) \<and>
      \<not> isspace (last (rstrip_slash (strip text) @ replicate k (CHR ''/'')))"
    using ends s by metis
  ultimately show ?thesis
    unfolding name_of_text_def using ws nl by blast
qed

lemma endswith_slash: "endswith href ''/'' \<longleftrightarrow> href \<noteq> [] \<and> last href = CHR ''/''"
proof (cases href rule: rev_cases)
  case Nil
  then show ?thesis
    by (simp add: endswith_def)
next
  case (snoc ys y)
  then show ?thesis
    by (simp add: endswith_def)
qed

lemma list_all2_right: "list_all2 P xs ys \<Longrightarrow> y \<in> set ys \<Longrightarrow> \<exists>x \<in> set xs. P x y"
  by (induction rule: list_all2_induct) auto

subsection \<open>Failures of a fetch\<close>

text \<open>What the \<^verbatim>\<open>except\<close> clause does absorb, and what a crawl that returns holds.\<close>

lemma caught_failure_isolated:
  "(fetch url = Inl e \<and> (e = URLError \<or> e = OSError) \<longrightarrow>
      process_completed fetch urljoin ((url, depth, prefix) # rest) results next_level =
        process_completed fetch urljoin rest results next_level) \<and>
   (fetch url = Inl e \<and> e \<noteq> URLError \<and> e \<noteq> OSError \<longrightarrow>
      process_completed fetch urljoin ((url, depth, prefix) # rest) results next_level = Inl e) \<and>
   (0 < workers \<and> (\<forall>u x. fetch u = Inl x \<longrightarrow> x = URLError \<or> x = OSError) \<and>
    (\<forall>u html. fetch u = Inr html \<longrightarrow> \<not> isl (parse_links urljoin html u)) \<longrightarrow>
      (\<exists>rs. snd (crawl_directory fetch urljoin delay root_url max_depth workers) = Inr rs)) \<and>
   (\<forall>rs. snd (crawl_directory fetch urljoin delay root_url max_depth workers) = Inr rs \<longrightarrow>
      mset rs =
        mset (entries_of fetch urljoin
                (fst (crawl_directory fetch urljoin delay root_url max_depth workers))) \<and>
      mset (fst (crawl_directory fetch urljoin delay root_url max_depth workers)) =
        mset (submit max_depth [(with_slash root_url, 0, [])]) +
        mset (submit max_depth
                (children_of fetch urljoin
                   (fst (crawl_directory fetch urljoin delay root_url max_depth workers)))))"
proof (intro conjI impI allI)
  assume "fetch url = Inl e \<and> (e = URLError \<or> e = OSError)"
  then show "process_completed fetch urljoin ((url, depth, prefix) # rest) results next_level =
        process_completed fetch urljoin rest results next_level"
    by auto
next
  assume "fetch url = Inl e \<and> e \<noteq> URLError \<and> e \<noteq> OSError"
  then show "process_completed fetch urljoin ((url, depth, prefix) # rest) results next_level =
      Inl e"
    by (cases e) simp_all
next
  let ?out = "snd (crawl_directory fetch urljoin delay root_url max_depth workers)"
  assume a: "0 < workers \<and> (\<forall>u x. fetch u = Inl x \<longrightarrow> x = URLError \<or> x = OSError) \<and>
    (\<forall>u html. fetch u = Inr html \<longrightarrow> \<not> isl (parse_links urljoin html u))"
  have "\<not> item_raises fetch urljoin it" for it
  proof (cases "fetch (fst it)")
    case (Inl x)
    with a have "x = URLError \<or> x = OSError"
      by blast
    then have "caught x"
      by auto
    with Inl show ?thesis
      by (simp add: item_raises_def)
  next
    case (Inr html)
    with a show ?thesis
      by (simp add: item_raises_def)
  qed
  with crawl_directory_post [of workers fetch urljoin max_depth root_url delay] a
  show "\<exists>rs. ?out = Inr rs"
    by (cases ?out) (auto simp: loop_post_def)
next
  fix rs
  let ?sub = "fst (crawl_directory fetch urljoin delay root_url max_depth workers)"
  let ?out = "snd (crawl_directory fetch urljoin delay root_url max_depth workers)"
  assume rs: "?out = Inr rs"
  then have w: "0 < workers"
    by (auto simp: crawl_directory_unfold split: if_splits)
  from crawl_directory_post [OF w, of fetch urljoin max_depth root_url delay] rs
  show "mset rs = mset (entries_of fetch urljoin ?sub)"
    and "mset ?sub = mset (submit max_depth [(with_slash root_url, 0, [])]) +
        mset (submit max_depth (children_of fetch urljoin ?sub))"
    by (simp_all add: loop_post_def)
qed

subsection \<open>Sample inputs\<close>

text \<open>
  \<^verbatim>\<open>urljoin(base, href)\<close> on the inputs of the examples. The base \<^verbatim>\<open>http://[\<close> and the href
  \<^verbatim>\<open>http:/<TAB>/[\<close> (which \<^verbatim>\<open>urlsplit\<close> reads as \<^verbatim>\<open>http://[\<close> once it has dropped the tab)
  have a host with an unclosed bracket, and \<^verbatim>\<open>urljoin\<close> raises \<^verbatim>\<open>ValueError\<close> (Invalid IPv6
  URL). For a base that ends with \<^verbatim>\<open>/\<close> and an href made of plain, non-empty path
  segments (no scheme, query, fragment or dot segment) the href is appended. The
  examples below call it on such inputs only.
\<close>

definition urljoin_plain :: "string \<Rightarrow> string \<Rightarrow> exn + string" where
  "urljoin_plain base href =
     (if base = ''http://['' \<or> href = ''http:/'' @ [CHR 0x09] @ ''/['' then Inl ValueError
      else Inr (base @ href))"

text \<open>A server on which every fetch fails with \<^verbatim>\<open>URLError\<close>.\<close>

definition fetch_down :: "string \<Rightarrow> exn + string" where
  "fetch_down url = Inl URLError"

text \<open>All futures of a level complete together: they are yielded as submitted.\<close>

definition no_delay :: "nat \<Rightarrow> nat \<Rightarrow> nat" where
  "no_delay n i = 0"

text \<open>The future submitted second completes first.\<close>

definition last_first :: "nat \<Rightarrow> nat \<Rightarrow> nat" where
  "last_first n i = 1 - i"

text \<open>
  A small log archive: the root lists the parent link, a directory \<^verbatim>\<open>a/\<close>, a file
  \<^verbatim>\<open>b.txt\<close> whose anchor text has blanks around it, and a directory \<^verbatim>\<open>down/\<close> whose fetch
  fails with \<^verbatim>\<open>URLError\<close>; \<^verbatim>\<open>a/\<close> lists one file. The URL \<^verbatim>\<open>/\<close> has no scheme:
  \<^verbatim>\<open>urllib.request.Request\<close> raises \<^verbatim>\<open>ValueError\<close> (unknown url type) before anything is
  sent.
\<close>

definition fetch_site :: "string \<Rightarrow> exn + string" where
  \<open>fetch_site url =
     (if url = ''http://h/logs/''
      then Inr ''<a href="../">Parent Directory</a> <a href="a/">a/</a> <a href="b.txt"> b.txt </a> <a href="down/">down/</a>''
      else if url = ''http://h/logs/a/'' then Inr ''<a href="c.txt">c.txt</a>''
      else if url = ''/'' then Inl ValueError
      else Inl URLError)\<close>

text \<open>The same archive when the connection to \<^verbatim>\<open>down/\<close> closes before the whole body
  has come: \<^verbatim>\<open>resp.read()\<close> raises \<^verbatim>\<open>http.client.IncompleteRead\<close>.\<close>

definition fetch_truncated :: "string \<Rightarrow> exn + string" where
  "fetch_truncated url =
     (if url = ''http://h/logs/down/'' then Inl HTTPException else fetch_site url)"

lemma site_root_links:
  \<open>parse_links urljoin_plain
     ''<a href="../">Parent Directory</a> <a href="a/">a/</a> <a href="b.txt"> b.txt </a> <a href="down/">down/</a>''
     ''http://h/logs/'' =
   Inr [(''a'', ''http://h/logs/a/'', True), (''b.txt'', ''http://h/logs/b.txt'', False),
        (''down'', ''http://h/logs/down/'', True)]\<close>
  by (simp add: parse_links_def isspace_def match_tail_def startswith_def strip_def
      rstrip_slash_def endswith_def urljoin_plain_def)

lemma site_a_links:
  \<open>parse_links urljoin_plain ''<a href="c.txt">c.txt</a>'' ''http://h/logs/a/'' =
      Inr [(''c.txt'', ''http://h/logs/a/c.txt'', False)]\<close>
  by (simp add: parse_links_def isspace_def match_tail_def startswith_def strip_def
      rstrip_slash_def endswith_def urljoin_plain_def)

lemma site_crawl:
  "crawl_directory fetch_site urljoin_plain no_delay ''http://h/logs'' 5 20 =
     ([(''http://h/logs/'', 0, []), (''http://h/logs/a/'', 1, ''a/''),
       (''http://h/logs/down/'', 1, ''down/'')],
      Inr [(''d'', ''a/'', ''http://h/logs/a/''), (''f'', ''a/c.txt'', ''http://h/logs/a/c.txt''),
           (''f'', ''b.txt'', ''http://h/logs/b.txt''),
           (''d'', ''down/'', ''http://h/logs/down/'')])"
  by code_simp

lemma site_crawl_last_first:
  "crawl_directory fetch_site urljoin_plain last_first ''http://h/logs'' 5 3 =
     ([(''http://h/logs/'', 0, []), (''http://h/logs/a/'', 1, ''a/''),
       (''http://h/logs/down/'', 1, ''down/'')],
      Inr [(''d'', ''a/'', ''http://h/logs/a/''), (''f'', ''a/c.txt'', ''http://h/logs/a/c.txt''),
           (''f'', ''b.txt'', ''http://h/logs/b.txt''),
           (''d'', ''down/'', ''http://h/logs/down/'')])"
  by code_simp

lemma site_plain_names:
  "\<forall>it \<in> set (fst (crawl_directory fetch_site urljoin_plain no_delay ''http://h/logs'' 5 20)).
     plain_names (page_links fetch_site urljoin_plain it)"
  by (auto simp: site_crawl page_links_def fetch_site_def site_root_links site_a_links
      plain_names_def seg_def)

lemma truncated_crawl:
  "crawl_directory fetch_truncated urljoin_plain no_delay ''http://h/logs'' 5 20 =
     ([(''http://h/logs/'', 0, []), (''http://h/logs/a/'', 1, ''a/''),
       (''http://h/logs/down/'', 1, ''down/'')],
      Inl HTTPException)"
  by code_simp

text \<open>A listing in which \<^verbatim>\<open>a/b/\<close> is linked both from the root and from \<^verbatim>\<open>a/\<close>.\<close>

definition fetch_dag :: "string \<Rightarrow> exn + string" where
  \<open>fetch_dag url =
     (if url = ''http://h/logs/'' then Inr ''<a href="a/">a/</a> <a href="a/b/">a/b/</a>''
      else if url = ''http://h/logs/a/'' then Inr ''<a href="b/">b/</a>''
      else if url = ''http://h/logs/a/b/'' then Inr ''<a href="f.txt">f.txt</a>''
      else Inl URLError)\<close>

text \<open>The graph of the listings: an edge from a page URL to the URL of each directory
  link that \<^verbatim>\<open>_parse_links\<close> finds on the page.\<close>

definition listing_edges ::
  "(string \<Rightarrow> exn + string) \<Rightarrow> (string \<Rightarrow> string \<Rightarrow> exn + string) \<Rightarrow> (string \<times> string) set" where
  "listing_edges fetch urljoin =
     {(u, v). \<exists>name. (name, v, True) \<in> set (page_links fetch urljoin (u, 0, []))}"

lemma dag_links:
  \<open>parse_links urljoin_plain ''<a href="a/">a/</a> <a href="a/b/">a/b/</a>'' ''http://h/logs/'' =
     Inr [(''a'', ''http://h/logs/a/'', True), (''a/b'', ''http://h/logs/a/b/'', True)]\<close>
  \<open>parse_links urljoin_plain ''<a href="b/">b/</a>'' ''http://h/logs/a/'' =
     Inr [(''b'', ''http://h/logs/a/b/'', True)]\<close>
  \<open>parse_links urljoin_plain ''<a href="f.txt">f.txt</a>'' ''http://h/logs/a/b/'' =
     Inr [(''f.txt'', ''http://h/logs/a/b/f.txt'', False)]\<close>
  by (simp_all add: parse_links_def isspace_def match_tail_def startswith_def strip_def
      rstrip_slash_def endswith_def urljoin_plain_def)

lemma dag_acyclic: "acyclic (listing_edges fetch_dag urljoin_plain)"
proof -
  have "listing_edges fetch_dag urljoin_plain \<subseteq> measure length"
  proof
    fix e
    assume e: "e \<in> listing_edges fetch_dag urljoin_plain"
    obtain u v where uv: "e = (u, v)"
      by (cases e)
    from e uv obtain name where
      l: "(name, v, True) \<in> set (page_links fetch_dag urljoin_plain (u, 0, []))"
      by (auto simp: listing_edges_def)
    then have "length u < length v"
      by (auto simp: page_links_def fetch_dag_def dag_links split: if_splits)
    with uv show "e \<in> measure length"
      by simp
  qed
  with wf_acyclic [OF wf_measure] show ?thesis
    by (rule acyclic_subset)
qed

lemma dag_crawl:
  "fst (crawl_directory fetch_dag urljoin_plain no_delay ''http://h/logs/'' 5 20) =
     [(''http://h/logs/'', 0, []), (''http://h/logs/a/'', 1, ''a/''),
      (''http://h/logs/a/b/'', 1, ''a/b/''), (''http://h/logs/a/b/'', 2, ''a/b/'')]"
  by code_simp

text \<open>Two directories whose anchors show the same text, as a listing that truncates
  long names does; each holds one file.\<close>

definition fetch_twins :: "string \<Rightarrow> exn + string" where
  \<open>fetch_twins url =
     (if url = ''http://h/logs/''
      then Inr ''<a href="run-1/">run..&gt;</a> <a href="run-2/">run..&gt;</a>''
      else if url = ''http://h/logs/run-1/'' then Inr ''<a href="log.txt">log.txt</a>''
      else if url = ''http://h/logs/run-2/'' then Inr ''<a href="log.txt">log.txt</a>''
      else Inl URLError)\<close>

lemma twins_crawl:
  "snd (crawl_directory fetch_twins urljoin_plain no_delay ''http://h/logs/'' 5 20) =
     Inr [(''d'', ''run..&gt;/'', ''http://h/logs/run-1/''),
          (''d'', ''run..&gt;/'', ''http://h/logs/run-2/''),
          (''f'', ''run..&gt;/log.txt'', ''http://h/logs/run-1/log.txt''),
          (''f'', ''run..&gt;/log.txt'', ''http://h/logs/run-2/log.txt'')]"
  "snd (crawl_directory fetch_twins urljoin_plain last_first ''http://h/logs/'' 5 20) =
     Inr [(''d'', ''run..&gt;/'', ''http://h/logs/run-1/''),
          (''d'', ''run..&gt;/'', ''http://h/logs/run-2/''),
          (''f'', ''run..&gt;/log.txt'', ''http://h/logs/run-2/log.txt''),
          (''f'', ''run..&gt;/log.txt'', ''http://h/logs/run-1/log.txt'')]"
  by code_simp+

lemma twins_crawl_one:
  "snd (crawl_directory fetch_twins urljoin_plain no_delay ''http://h/logs/'' 1 20) =
     Inr [(''d'', ''run..&gt;/'', ''http://h/logs/run-1/''),
          (''d'', ''run..&gt;/'', ''http://h/logs/run-2/'')]"
  by code_simp

text \<open>The same archive when the connection to \<^verbatim>\<open>down/\<close> is reset: an \<^verbatim>\<open>OSError\<close>.\<close>

definition fetch_reset :: "string \<Rightarrow> exn + string" where
  "fetch_reset url =
     (if url = ''http://h/logs/down/'' then Inl OSError else fetch_site url)"

lemma reset_crawl:
  "crawl_directory fetch_reset urljoin_plain no_delay ''http://h/logs'' 5 20 =
     ([(''http://h/logs/'', 0, []), (''http://h/logs/a/'', 1, ''a/''),
       (''http://h/logs/down/'', 1, ''down/'')],
      Inr [(''d'', ''a/'', ''http://h/logs/a/''), (''f'', ''a/c.txt'', ''http://h/logs/a/c.txt''),
           (''f'', ''b.txt'', ''http://h/logs/b.txt''),
           (''d'', ''down/'', ''http://h/logs/down/'')])"
  by code_simp

text \<open>A page with one href that \<^verbatim>\<open>urljoin\<close> rejects, and a server with that root page.\<close>

definition odd_page :: string where
  \<open>odd_page = ''<a href="http:/'' @ [CHR 0x09] @ ''/[">odd</a> <a href="child/">Child</a>''\<close>

definition fetch_odd :: "string \<Rightarrow> exn + string" where
  "fetch_odd url = (if url = ''http://h/logs/'' then Inr odd_page else Inl URLError)"

lemma odd_links: "parse_links urljoin_plain odd_page ''http://h/logs/'' = Inl ValueError"
  by (simp add: odd_page_def parse_links_def isspace_def match_tail_def startswith_def
      strip_def rstrip_slash_def endswith_def urljoin_plain_def)

text \<open>A page with an empty href, a fragment, a query, a duplicate href under another
  text, and a file whose text has blanks around it.\<close>

definition mixed_page :: string where
  \<open>mixed_page = ''<a href="">none</a> <a href="#top">Top</a> <a href="?C=M;O=A">Last modified</a> <a href="x/">X/</a> <a href="x/">Again</a> <a href="y.log"> y.log </a>''\<close>

lemma mixed_links:
  "parse_links urljoin_plain mixed_page ''http://h/logs/'' =
     Inr [(''X'', ''http://h/logs/x/'', True), (''y.log'', ''http://h/logs/y.log'', False)]"
  by (simp add: mixed_page_def parse_links_def isspace_def match_tail_def startswith_def
      strip_def rstrip_slash_def endswith_def urljoin_plain_def)

lemma site_root_anchors:
  \<open>finditer ''<a href="../">Parent Directory</a> <a href="a/">a/</a> <a href="b.txt"> b.txt </a> <a href="down/">down/</a>'' =
     [(''../'', ''Parent Directory''), (''a/'', ''a/''), (''b.txt'', '' b.txt ''),
      (''down/'', ''down/'')]\<close>
  by (simp add: isspace_def match_tail_def)

section \<open>The claims\<close>

subsection \<open>C10: a depth limit of zero or less\<close>

text \<open>
  C10. For every \<^verbatim>\<open>root_url\<close> and every \<^verbatim>\<open>workers >= 1\<close>, \<^verbatim>\<open>crawl_directory\<close> called with
  \<^verbatim>\<open>max_depth <= 0\<close> (negative values included) raises no error, submits no fetch and
  returns the empty list.
\<close>

theorem crawl_directory_nonpositive_depth:
  "1 \<le> workers \<Longrightarrow> max_depth \<le> 0 \<Longrightarrow>
   crawl_directory fetch urljoin delay root_url max_depth workers = ([], Inr [])"
  by (simp add: crawl_directory_def Let_def crawl_loop_stop submit_def)

theorem crawl_directory_nonpositive_depth_witness:
  "(1::int) \<le> 1 \<and> (- 2::int) \<le> 0 \<and>
   crawl_directory fetch_down urljoin_plain no_delay ''http://h/logs'' (- 2) 1 = ([], Inr [])"
  using crawl_directory_nonpositive_depth
    [of 1 "- 2" fetch_down urljoin_plain no_delay "''http://h/logs''"]
  by simp

subsection \<open>C6: what is checked before the first fetch\<close>

text \<open>
  C6 as stated: every call with an empty root URL, a non-positive depth or a
  non-positive worker count raises a configuration error before any fetch begins.
  The first call below has a negative depth; the second has an empty root URL, with the
  depth 0 that the contract allows. Both return the empty list and raise nothing.
\<close>

theorem crawl_directory_config_counterexample:
  "crawl_directory fetch_site urljoin_plain no_delay ''http://h/logs/'' (- 1) 20 = ([], Inr []) \<and>
   crawl_directory fetch_site urljoin_plain no_delay [] 0 20 = ([], Inr [])"
  by (simp add: crawl_directory_def Let_def crawl_loop_stop submit_def endswith_def)

text \<open>
  C6, amended. A worker count of zero or less raises \<^verbatim>\<open>ValueError\<close> (from the pool's
  constructor) before any fetch is submitted. With a positive worker count, a depth of
  zero or less raises nothing and returns the empty list without a fetch, whatever the
  root URL, the empty one included. With a positive worker count and a positive depth,
  an empty root URL becomes \<^verbatim>\<open>/\<close>; its fetch raises \<^verbatim>\<open>ValueError\<close> before anything is sent
  (\<^verbatim>\<open>Request\<close> rejects a URL without a scheme), nothing catches it, and the caller gets
  that exception with nothing else fetched.
\<close>

theorem crawl_directory_config:
  "(workers \<le> 0 \<longrightarrow>
      crawl_directory fetch urljoin delay root_url max_depth workers = ([], Inl ValueError)) \<and>
   (0 < workers \<and> max_depth \<le> 0 \<longrightarrow>
      crawl_directory fetch urljoin delay root_url max_depth workers = ([], Inr [])) \<and>
   (0 < workers \<and> 0 < max_depth \<and> fetch ''/'' = Inl ValueError \<longrightarrow>
      crawl_directory fetch urljoin delay [] max_depth workers =
        ([(''/'', 0, [])], Inl ValueError))"
proof (intro conjI impI)
  assume "workers \<le> 0"
  then show "crawl_directory fetch urljoin delay root_url max_depth workers = ([], Inl ValueError)"
    by (simp add: crawl_directory_def Let_def)
next
  assume "0 < workers \<and> max_depth \<le> 0"
  then show "crawl_directory fetch urljoin delay root_url max_depth workers = ([], Inr [])"
    by (simp add: crawl_directory_def Let_def crawl_loop_stop submit_def)
next
  assume a: "0 < workers \<and> 0 < max_depth \<and> fetch ''/'' = Inl ValueError"
  let ?r = "(''/'', 0::int, [] :: string)"
  from a have fm: "submit max_depth [?r] = [?r]"
    by (simp add: submit_def)
  then have ne: "submit max_depth [?r] \<noteq> []"
    by simp
  from a have "process_completed fetch urljoin
      (as_completed (delay 0) (submit max_depth [?r])) [] [] = Inl ValueError"
    by (simp add: fm)
  from crawl_loop_raise [where delay = delay and n = 0, OF ne this, of "[]"]
  have "crawl_loop fetch urljoin delay max_depth 0 [?r] [] [] = ([?r], Inl ValueError)"
    by (simp add: fm)
  with a show "crawl_directory fetch urljoin delay [] max_depth workers =
      ([(''/'', 0, [])], Inl ValueError)"
    by (simp add: crawl_directory_unfold with_slash_def endswith_def)
qed

theorem crawl_directory_config_witness:
  "crawl_directory fetch_site urljoin_plain no_delay ''http://h/logs/'' 5 0 = ([], Inl ValueError) \<and>
   crawl_directory fetch_site urljoin_plain no_delay ''http://h/logs/'' (- 1) 20 = ([], Inr []) \<and>
   crawl_directory fetch_site urljoin_plain no_delay [] 0 20 = ([], Inr []) \<and>
   fetch_site ''/'' = Inl ValueError \<and>
   crawl_directory fetch_site urljoin_plain no_delay [] 5 20 = ([(''/'', 0, [])], Inl ValueError)"
  using crawl_directory_config [of 0 fetch_site urljoin_plain no_delay "''http://h/logs/''" 5]
    crawl_directory_config [of 20 fetch_site urljoin_plain no_delay "''http://h/logs/''" "- 1"]
    crawl_directory_config [of 20 fetch_site urljoin_plain no_delay "[]" 0]
    crawl_directory_config [of 20 fetch_site urljoin_plain no_delay "[]" 5]
  by (simp add: fetch_site_def)

subsection \<open>C4: link filtering\<close>

text \<open>
  C4 as stated: for every page content and page URL, exactly the anchors that the rules
  discard are left out, and the page of the specification yields only Child. With the
  page URL \<^verbatim>\<open>http://[\<close> the page of the specification yields no link: \<^verbatim>\<open>urljoin\<close> raises
  on \<^verbatim>\<open>child/\<close> and \<^verbatim>\<open>_parse_links\<close> with it. So does a page with a kept href that
  \<^verbatim>\<open>urljoin\<close> rejects, whatever else is on the page.
\<close>

theorem parse_links_filtering_counterexample:
  \<open>parse_links urljoin_plain
     ''<a href="../">Parent</a> <a href="?C=N">Name</a> <a href="/abs/">Abs</a> <a href="http://other.example/">Other</a> <a href="child/">Child</a>''
     ''http://['' = Inl ValueError \<and>
   parse_links urljoin_plain odd_page ''http://h/logs/'' = Inl ValueError\<close>
proof
  show \<open>parse_links urljoin_plain
     ''<a href="../">Parent</a> <a href="?C=N">Name</a> <a href="/abs/">Abs</a> <a href="http://other.example/">Other</a> <a href="child/">Child</a>''
     ''http://['' = Inl ValueError\<close>
    by (simp add: parse_links_def isspace_def match_tail_def startswith_def strip_def
        rstrip_slash_def endswith_def urljoin_plain_def)
  show "parse_links urljoin_plain odd_page ''http://h/logs/'' = Inl ValueError"
    by (simp add: odd_page_def parse_links_def isspace_def match_tail_def startswith_def
        strip_def rstrip_slash_def endswith_def urljoin_plain_def)
qed

text \<open>
  C4, amended. For every page content and page URL, an anchor is discarded exactly when
  its href is empty or equals \<^verbatim>\<open>../\<close>, or begins with \<^verbatim>\<open>?\<close>, \<^verbatim>\<open>#\<close> or \<^verbatim>\<open>/\<close>, or contains
  \<^verbatim>\<open>://\<close>, or is an exact duplicate of an href already seen on the same page (the first
  occurrence wins). When \<^verbatim>\<open>urljoin\<close> resolves the href of every anchor that is kept, the
  links returned are those of the kept anchors, in page order; when it raises on one of
  them, \<^verbatim>\<open>_parse_links\<close> raises that exception and returns nothing. The page with the
  anchors Parent, Name, Abs, Other and Child yields only Child, and two identical
  anchors yield one link, whenever \<^verbatim>\<open>urljoin\<close> resolves \<^verbatim>\<open>child/\<close> (or \<^verbatim>\<open>x/\<close>) against the
  page URL.
\<close>

theorem parse_links_filtering:
  \<open>(case parse_links urljoin html base_url of
      Inr links \<Rightarrow>
        list_all2
          (\<lambda>(href, text) (name, abs_url, d).
              urljoin base_url href = Inr abs_url \<and> name = rstrip_slash (strip text) \<and>
              d = endswith href ''/'')
          (map ((!) (finditer html))
             (filter (\<lambda>i. \<not> anchor_discarded (finditer html) i) [0..<length (finditer html)]))
          links
    | Inl e \<Rightarrow>
        (\<exists>i<length (finditer html). \<not> anchor_discarded (finditer html) i \<and>
           urljoin base_url (fst (finditer html ! i)) = Inl e)) \<and>
   (urljoin base_url ''child/'' = Inr u \<longrightarrow>
      parse_links urljoin
        ''<a href="../">Parent</a> <a href="?C=N">Name</a> <a href="/abs/">Abs</a> <a href="http://other.example/">Other</a> <a href="child/">Child</a>''
        base_url = Inr [(''Child'', u, True)]) \<and>
   (urljoin base_url ''x/'' = Inr v \<longrightarrow>
      parse_links urljoin ''<a href="x/">X</a><a href="x/">X</a>'' base_url =
        Inr [(''X'', v, True)])\<close>
proof (intro conjI impI)
  let ?kept = "map ((!) (finditer html))
     (filter (\<lambda>i. \<not> anchor_discarded (finditer html) i) [0..<length (finditer html)])"
  have raise: "\<exists>m \<in> set ms. urljoin base_url (fst m) = Inl e"
    if "build_links urljoin base_url ms = Inl e" for ms e
    using that by (induction ms) (auto split: sum.splits)
  show \<open>case parse_links urljoin html base_url of
      Inr links \<Rightarrow>
        list_all2
          (\<lambda>(href, text) (name, abs_url, d).
              urljoin base_url href = Inr abs_url \<and> name = rstrip_slash (strip text) \<and>
              d = endswith href ''/'')
          ?kept links
    | Inl e \<Rightarrow>
        (\<exists>i<length (finditer html). \<not> anchor_discarded (finditer html) i \<and>
           urljoin base_url (fst (finditer html ! i)) = Inl e)\<close>
  proof (cases "parse_links urljoin html base_url")
    case (Inl e)
    then have "build_links urljoin base_url ?kept = Inl e"
      by (simp add: parse_links_kept)
    from raise [OF this] Inl show ?thesis
      by auto
  next
    case (Inr links)
    then have "build_links urljoin base_url ?kept = Inr links"
      by (simp add: parse_links_kept)
    from build_links_Inr [OF this] have "list_all2
        (\<lambda>(href, text) (name, abs_url, d).
            urljoin base_url href = Inr abs_url \<and> name = rstrip_slash (strip text) \<and>
            d = endswith href ''/'') ?kept links"
      by (rule list_all2_mono) auto
    with Inr show ?thesis
      by simp
  qed
next
  assume "urljoin base_url ''child/'' = Inr u"
  then show \<open>parse_links urljoin
        ''<a href="../">Parent</a> <a href="?C=N">Name</a> <a href="/abs/">Abs</a> <a href="http://other.example/">Other</a> <a href="child/">Child</a>''
        base_url = Inr [(''Child'', u, True)]\<close>
    by (simp add: parse_links_def isspace_def match_tail_def startswith_def strip_def
        rstrip_slash_def endswith_def)
next
  assume "urljoin base_url ''x/'' = Inr v"
  then show \<open>parse_links urljoin ''<a href="x/">X</a><a href="x/">X</a>'' base_url =
        Inr [(''X'', v, True)]\<close>
    by (simp add: parse_links_def isspace_def match_tail_def startswith_def strip_def
        rstrip_slash_def endswith_def)
qed

theorem parse_links_filtering_witness:
  \<open>urljoin_plain ''http://h/logs/'' ''child/'' = Inr ''http://h/logs/child/'' \<and>
   parse_links urljoin_plain
     ''<a href="../">Parent</a> <a href="?C=N">Name</a> <a href="/abs/">Abs</a> <a href="http://other.example/">Other</a> <a href="child/">Child</a>''
     ''http://h/logs/'' = Inr [(''Child'', ''http://h/logs/child/'', True)] \<and>
   urljoin_plain ''http://h/logs/'' ''x/'' = Inr ''http://h/logs/x/'' \<and>
   parse_links urljoin_plain ''<a href="x/">X</a><a href="x/">X</a>'' ''http://h/logs/'' =
     Inr [(''X'', ''http://h/logs/x/'', True)] \<and>
   parse_links urljoin_plain mixed_page ''http://h/logs/'' =
     Inr [(''X'', ''http://h/logs/x/'', True), (''y.log'', ''http://h/logs/y.log'', False)] \<and>
   list_all2
     (\<lambda>(href, text) (name, abs_url, d).
         urljoin_plain ''http://h/logs/'' href = Inr abs_url \<and>
         name = rstrip_slash (strip text) \<and> d = endswith href ''/'')
     (map ((!) (finditer mixed_page))
        (filter (\<lambda>i. \<not> anchor_discarded (finditer mixed_page) i)
           [0..<length (finditer mixed_page)]))
     [(''X'', ''http://h/logs/x/'', True), (''y.log'', ''http://h/logs/y.log'', False)]\<close>
proof -
  have c: "urljoin_plain ''http://h/logs/'' ''child/'' = Inr ''http://h/logs/child/''"
    and x: "urljoin_plain ''http://h/logs/'' ''x/'' = Inr ''http://h/logs/x/''"
    by (simp_all add: urljoin_plain_def)
  note inst = parse_links_filtering [where urljoin = urljoin_plain and html = mixed_page
      and base_url = "''http://h/logs/''" and u = "''http://h/logs/child/''"
      and v = "''http://h/logs/x/''"]
  show ?thesis
    using inst c x by (simp add: mixed_links)
qed

subsection \<open>C5: entries and next items\<close>

text \<open>
  C5. Every link that \<^verbatim>\<open>_parse_links\<close> returns comes from an anchor of the page: its URL
  is the href resolved against the page URL, it is a directory exactly when the href
  ends with \<^verbatim>\<open>/\<close>, and its name is the anchor text without the white space at both ends
  and without the slashes that then end it. When the fetch of an item succeeds and its
  page gives the links, each link adds the entry with path prefix + name + (\<^verbatim>\<open>/\<close> for a
  directory) and that URL, and exactly the directory links add the next items
  (URL, depth + 1, prefix + name + \<^verbatim>\<open>/\<close>).
\<close>

theorem entry_and_frontier_construction:
  "(parse_links urljoin html url = Inr links \<longrightarrow>
      (\<forall>l \<in> set links.
         \<exists>href text. (href, text) \<in> set (finditer html) \<and>
           urljoin url href = Inr (fst (snd l)) \<and>
           (snd (snd l) \<longleftrightarrow> href \<noteq> [] \<and> last href = CHR ''/'') \<and>
           name_of_text text (fst l))) \<and>
   (fetch url = Inr html \<and> parse_links urljoin html url = Inr links \<longrightarrow>
      process_completed fetch urljoin [(url, depth, prefix)] results next_level =
        Inr (results @
               map (\<lambda>(name, link_url, d).
                      (if d then ''d'' else ''f'', prefix @ name @ (if d then ''/'' else []), link_url))
                 links,
             next_level @
               map (\<lambda>(name, link_url, d). (link_url, depth + 1, prefix @ name @ ''/''))
                 (filter (\<lambda>(name, link_url, d). d) links)))"
proof (intro conjI ballI impI)
  fix l
  assume "parse_links urljoin html url = Inr links" and l: "l \<in> set links"
  let ?kept = "map ((!) (finditer html))
     (filter (\<lambda>i. \<not> anchor_discarded (finditer html) i) [0..<length (finditer html)])"
  from \<open>parse_links urljoin html url = Inr links\<close>
  have "build_links urljoin url ?kept = Inr links"
    by (simp add: parse_links_kept)
  from list_all2_right [OF build_links_Inr [OF this] l] obtain m where m: "m \<in> set ?kept"
    and rel: "(\<lambda>(href, text) l. urljoin url href = Inr (fst (snd l)) \<and>
                l = (rstrip_slash (strip text), fst (snd l), endswith href ''/'')) m l"
    by blast
  obtain href tx where ht: "m = (href, tx)"
    by (cases m)
  from m have "m \<in> set (finditer html)"
    by auto
  moreover from rel ht have "urljoin url href = Inr (fst (snd l))"
    and "fst l = rstrip_slash (strip tx)" and "snd (snd l) = endswith href ''/''"
    by (cases l; simp)+
  ultimately show "\<exists>href text. (href, text) \<in> set (finditer html) \<and>
      urljoin url href = Inr (fst (snd l)) \<and>
      (snd (snd l) \<longleftrightarrow> href \<noteq> [] \<and> last href = CHR ''/'') \<and>
      name_of_text text (fst l)"
    using name_of_text_strip [of tx] endswith_slash [of href] ht by auto
next
  assume "fetch url = Inr html \<and> parse_links urljoin html url = Inr links"
  moreover have "entry_of prefix = (\<lambda>(name, link_url, d).
      (if d then ''d'' else ''f'', prefix @ name @ (if d then ''/'' else []), link_url))"
    by (rule ext) (simp add: entry_of_def)
  moreover have "child_of depth prefix =
      (\<lambda>(name, link_url, d). (link_url, depth + 1, prefix @ name @ ''/''))"
    by (rule ext) (simp add: child_of_def)
  moreover have "is_dir = (\<lambda>(name, link_url, d). d)"
    by (rule ext) (simp add: is_dir_def split: prod.splits)
  ultimately show "process_completed fetch urljoin [(url, depth, prefix)] results next_level =
        Inr (results @
               map (\<lambda>(name, link_url, d).
                      (if d then ''d'' else ''f'', prefix @ name @ (if d then ''/'' else []), link_url))
                 links,
             next_level @
               map (\<lambda>(name, link_url, d). (link_url, depth + 1, prefix @ name @ ''/''))
                 (filter (\<lambda>(name, link_url, d). d) links))"
    by (simp add: add_links_eq)
qed

theorem entry_and_frontier_construction_witness:
  \<open>fetch_site ''http://h/logs/'' =
     Inr ''<a href="../">Parent Directory</a> <a href="a/">a/</a> <a href="b.txt"> b.txt </a> <a href="down/">down/</a>'' \<and>
   parse_links urljoin_plain
     ''<a href="../">Parent Directory</a> <a href="a/">a/</a> <a href="b.txt"> b.txt </a> <a href="down/">down/</a>''
     ''http://h/logs/'' =
     Inr [(''a'', ''http://h/logs/a/'', True), (''b.txt'', ''http://h/logs/b.txt'', False),
          (''down'', ''http://h/logs/down/'', True)] \<and>
   name_of_text ''a/'' ''a'' \<and> name_of_text '' b.txt '' ''b.txt'' \<and>
   process_completed fetch_site urljoin_plain [(''http://h/logs/'', 0, [])] [] [] =
     Inr ([(''d'', ''a/'', ''http://h/logs/a/''), (''f'', ''b.txt'', ''http://h/logs/b.txt''),
           (''d'', ''down/'', ''http://h/logs/down/'')],
          [(''http://h/logs/a/'', 1, ''a/''), (''http://h/logs/down/'', 1, ''down/'')])\<close>
proof -
  let ?page = \<open>''<a href="../">Parent Directory</a> <a href="a/">a/</a> <a href="b.txt"> b.txt </a> <a href="down/">down/</a>''\<close>
  let ?links = "[(''a'', ''http://h/logs/a/'', True), (''b.txt'', ''http://h/logs/b.txt'', False),
          (''down'', ''http://h/logs/down/'', True)]"
  have site: "fetch_site ''http://h/logs/'' = Inr ?page"
    by (simp add: fetch_site_def)
  note inst = entry_and_frontier_construction
    [where urljoin = urljoin_plain and html = ?page and url = "''http://h/logs/''"
       and links = ?links and fetch = fetch_site and depth = 0 and prefix = "[]"
       and results = "[]" and next_level = "[]"]
  from inst site_root_links have all: "\<forall>l \<in> set ?links.
         \<exists>href text. (href, text) \<in> set (finditer ?page) \<and>
           urljoin_plain ''http://h/logs/'' href = Inr (fst (snd l)) \<and>
           (snd (snd l) \<longleftrightarrow> href \<noteq> [] \<and> last href = CHR ''/'') \<and>
           name_of_text text (fst l)"
    by blast
  from all [THEN bspec, of "(''a'', ''http://h/logs/a/'', True)"]
  have "\<exists>href text. (href, text) \<in> set (finditer ?page) \<and>
           urljoin_plain ''http://h/logs/'' href = Inr ''http://h/logs/a/'' \<and>
           name_of_text text ''a''"
    by (simp del: finditer.simps) blast
  then have a: "name_of_text ''a/'' ''a''"
    unfolding site_root_anchors by (auto simp: urljoin_plain_def)
  from all [THEN bspec, of "(''b.txt'', ''http://h/logs/b.txt'', False)"]
  have "\<exists>href text. (href, text) \<in> set (finditer ?page) \<and>
           urljoin_plain ''http://h/logs/'' href = Inr ''http://h/logs/b.txt'' \<and>
           name_of_text text ''b.txt''"
    by (simp del: finditer.simps) blast
  then have b: "name_of_text '' b.txt '' ''b.txt''"
    unfolding site_root_anchors by (auto simp: urljoin_plain_def)
  from inst site site_root_links
  have "process_completed fetch_site urljoin_plain [(''http://h/logs/'', 0, [])] [] [] =
     Inr ([(''d'', ''a/'', ''http://h/logs/a/''), (''f'', ''b.txt'', ''http://h/logs/b.txt''),
           (''d'', ''down/'', ''http://h/logs/down/'')],
          [(''http://h/logs/a/'', 1, ''a/''), (''http://h/logs/down/'', 1, ''down/'')])"
    by simp
  with site site_root_links a b show ?thesis
    by simp
qed

subsection \<open>C2: the depth limit\<close>

text \<open>
  C2. \<^verbatim>\<open>max_depth\<close> bounds the directory expansions. With \<^verbatim>\<open>max_depth = 0\<close> the result is
  empty and nothing is fetched. No item at depth \<^verbatim>\<open>max_depth\<close> or more is ever submitted
  to the fetcher, while every link of every fetched page, directories included, is
  recorded in the result. With \<^verbatim>\<open>max_depth = 1\<close> only the root is fetched: the crawl
  raises what the fetch of the root (if not caught) or \<^verbatim>\<open>_parse_links\<close> raises, and
  otherwise returns the sorted entries of the root page, its directories listed and
  none expanded. The worker count is one the pool accepts.
\<close>

theorem depth_bound:
  "0 < workers \<longrightarrow>
     crawl_directory fetch urljoin delay root_url 0 workers = ([], Inr []) \<and>
     (\<forall>it \<in> set (fst (crawl_directory fetch urljoin delay root_url max_depth workers)).
        fst (snd it) < max_depth) \<and>
     (\<forall>rs. snd (crawl_directory fetch urljoin delay root_url max_depth workers) = Inr rs \<longrightarrow>
        (\<forall>it \<in> set (fst (crawl_directory fetch urljoin delay root_url max_depth workers)).
           set (item_entries fetch urljoin it) \<subseteq> set rs)) \<and>
     crawl_directory fetch urljoin delay root_url 1 workers =
       ([(with_slash root_url, 0, [])],
        case fetch (with_slash root_url) of
          Inl e \<Rightarrow> if caught e then Inr [] else Inl e
        | Inr html \<Rightarrow>
            (case parse_links urljoin html (with_slash root_url) of
               Inl e \<Rightarrow> Inl e
             | Inr links \<Rightarrow>
                 Inr (sort_key (\<lambda>x. fst (snd x))
                        (map (\<lambda>(name, link_url, d).
                                (if d then ''d'' else ''f'', name @ (if d then ''/'' else []),
                                 link_url))
                           links))))"
proof (intro impI conjI)
  assume w: "0 < workers"
  let ?sub = "fst (crawl_directory fetch urljoin delay root_url max_depth workers)"
  let ?out = "snd (crawl_directory fetch urljoin delay root_url max_depth workers)"
  note post = crawl_directory_post [OF w, of fetch urljoin max_depth root_url delay]
  from w show "crawl_directory fetch urljoin delay root_url 0 workers = ([], Inr [])"
    by (simp add: crawl_directory_unfold crawl_loop_stop submit_def)
  from post show "\<forall>it \<in> set ?sub. fst (snd it) < max_depth"
    by (simp add: loop_post_def)
  show "\<forall>rs. ?out = Inr rs \<longrightarrow> (\<forall>it \<in> set ?sub. set (item_entries fetch urljoin it) \<subseteq> set rs)"
  proof (intro allI impI ballI)
    fix rs it
    assume "?out = Inr rs" and it: "it \<in> set ?sub"
    with post have "mset rs = mset (entries_of fetch urljoin ?sub)"
      by (simp add: loop_post_def)
    then have "set rs = set (entries_of fetch urljoin ?sub)"
      by (rule mset_eq_setD)
    with it show "set (item_entries fetch urljoin it) \<subseteq> set rs"
      by (auto simp: entries_of_def)
  qed
  have e: "entry_of [] = (\<lambda>(name, link_url, d).
      (if d then ''d'' else ''f'', name @ (if d then ''/'' else []), link_url))"
    by (rule ext) (simp add: entry_of_def)
  show "crawl_directory fetch urljoin delay root_url 1 workers =
       ([(with_slash root_url, 0, [])],
        case fetch (with_slash root_url) of
          Inl e \<Rightarrow> if caught e then Inr [] else Inl e
        | Inr html \<Rightarrow>
            (case parse_links urljoin html (with_slash root_url) of
               Inl e \<Rightarrow> Inl e
             | Inr links \<Rightarrow>
                 Inr (sort_key (\<lambda>x. fst (snd x))
                        (map (\<lambda>(name, link_url, d).
                                (if d then ''d'' else ''f'', name @ (if d then ''/'' else []),
                                 link_url))
                           links))))"
    unfolding e [symmetric] by (rule crawl_directory_depth_one [OF w])
qed

theorem depth_bound_witness:
  "(0::int) < 20 \<and>
   crawl_directory fetch_site urljoin_plain no_delay ''http://h/logs'' 0 20 = ([], Inr []) \<and>
   crawl_directory fetch_site urljoin_plain no_delay ''http://h/logs'' 1 20 =
     ([(''http://h/logs/'', 0, [])],
      Inr [(''d'', ''a/'', ''http://h/logs/a/''), (''f'', ''b.txt'', ''http://h/logs/b.txt''),
           (''d'', ''down/'', ''http://h/logs/down/'')]) \<and>
   crawl_directory fetch_odd urljoin_plain no_delay ''http://h/logs'' 1 20 =
     ([(''http://h/logs/'', 0, [])], Inl ValueError) \<and>
   crawl_directory fetch_down urljoin_plain no_delay ''http://h/logs'' 1 20 =
     ([(''http://h/logs/'', 0, [])], Inr [])"
  using depth_bound [of 20 fetch_site urljoin_plain no_delay "''http://h/logs''" 1]
    depth_bound [of 20 fetch_odd urljoin_plain no_delay "''http://h/logs''" 1]
    depth_bound [of 20 fetch_down urljoin_plain no_delay "''http://h/logs''" 1]
  by (simp add: with_slash_def endswith_def fetch_site_def fetch_odd_def fetch_down_def
      site_root_links odd_links)

subsection \<open>C3: a failing fetch stays local\<close>

text \<open>
  C3. A network condition on the fetch of one URL is to be recovered where it happens
  and never ends the crawl: the failing item adds nothing and every other branch is
  complete in the result. The code does not do this for every network condition. The
  archive below answers the fetch of \<^verbatim>\<open>down/\<close> with a body that ends early; \<^verbatim>\<open>read\<close> raises
  \<^verbatim>\<open>http.client.IncompleteRead\<close>, which is neither a \<^verbatim>\<open>URLError\<close> nor an \<^verbatim>\<open>OSError\<close>, so the
  \<^verbatim>\<open>except\<close> clause lets it through: the whole crawl raises and the entries of the root
  and of the sibling \<^verbatim>\<open>a/\<close> are lost. With a \<^verbatim>\<open>URLError\<close> or an \<^verbatim>\<open>OSError\<close> at the same URL
  the crawl returns them.
\<close>

theorem crawl_raises_on_truncated_response:
  "fetch_truncated ''http://h/logs/down/'' = Inl HTTPException \<and>
   crawl_directory fetch_truncated urljoin_plain no_delay ''http://h/logs'' 5 20 =
     ([(''http://h/logs/'', 0, []), (''http://h/logs/a/'', 1, ''a/''),
       (''http://h/logs/down/'', 1, ''down/'')],
      Inl HTTPException) \<and>
   fetch_site ''http://h/logs/down/'' = Inl URLError \<and>
   crawl_directory fetch_site urljoin_plain no_delay ''http://h/logs'' 5 20 =
     ([(''http://h/logs/'', 0, []), (''http://h/logs/a/'', 1, ''a/''),
       (''http://h/logs/down/'', 1, ''down/'')],
      Inr [(''d'', ''a/'', ''http://h/logs/a/''), (''f'', ''a/c.txt'', ''http://h/logs/a/c.txt''),
           (''f'', ''b.txt'', ''http://h/logs/b.txt''),
           (''d'', ''down/'', ''http://h/logs/down/'')]) \<and>
   fetch_reset ''http://h/logs/down/'' = Inl OSError \<and>
   crawl_directory fetch_reset urljoin_plain no_delay ''http://h/logs'' 5 20 =
     ([(''http://h/logs/'', 0, []), (''http://h/logs/a/'', 1, ''a/''),
       (''http://h/logs/down/'', 1, ''down/'')],
      Inr [(''d'', ''a/'', ''http://h/logs/a/''), (''f'', ''a/c.txt'', ''http://h/logs/a/c.txt''),
           (''f'', ''b.txt'', ''http://h/logs/b.txt''),
           (''d'', ''down/'', ''http://h/logs/down/'')])"
  by (simp add: truncated_crawl site_crawl reset_crawl fetch_truncated_def fetch_reset_def
      fetch_site_def)

subsection \<open>C8: how often a URL is fetched\<close>


text \<open>
  C8 as stated: no URL is fetched more than once in a crawl, given that the directory
  listings form a DAG. The listings below are acyclic, yet \<^verbatim>\<open>a/b/\<close> is reached from the
  root and from \<^verbatim>\<open>a/\<close> and is fetched twice.
\<close>

theorem single_fetch_counterexample:
  "acyclic (listing_edges fetch_dag urljoin_plain) \<and>
   map fst (fst (crawl_directory fetch_dag urljoin_plain no_delay ''http://h/logs/'' 5 20)) =
     [''http://h/logs/'', ''http://h/logs/a/'', ''http://h/logs/a/b/'', ''http://h/logs/a/b/''] \<and>
   \<not> distinct (map fst (fst (crawl_directory fetch_dag urljoin_plain no_delay
                                 ''http://h/logs/'' 5 20)))"
  using dag_acyclic by (simp add: dag_crawl)

text \<open>
  C8, amended. In a crawl that returns, every fetch is of the root URL or of the URL of
  a directory entry of the result, at most once for each such entry. So no URL is
  fetched more than once when the URLs of the directory entries are pairwise distinct
  and differ from the root URL.
\<close>

theorem fetched_urls_bounded:
  "snd (crawl_directory fetch urljoin delay root_url max_depth workers) = Inr rs \<longrightarrow>
     mset (map fst (fst (crawl_directory fetch urljoin delay root_url max_depth workers)))
       \<subseteq># mset (with_slash root_url # dir_urls rs) \<and>
     (distinct (with_slash root_url # dir_urls rs) \<longrightarrow>
        distinct (map fst (fst (crawl_directory fetch urljoin delay root_url max_depth workers))))"
proof (intro impI)
  let ?sub = "fst (crawl_directory fetch urljoin delay root_url max_depth workers)"
  let ?out = "snd (crawl_directory fetch urljoin delay root_url max_depth workers)"
  assume rs: "?out = Inr rs"
  then have w: "0 < workers"
    by (auto simp: crawl_directory_unfold split: if_splits)
  from crawl_directory_post [OF w, of fetch urljoin max_depth root_url delay] rs
  have r: "mset rs = mset (entries_of fetch urljoin ?sub)"
    and s: "mset ?sub \<subseteq># mset (submit max_depth [(with_slash root_url, 0, [])]) +
        mset (submit max_depth (children_of fetch urljoin ?sub))"
    by (simp_all add: loop_post_def)
  have "mset (submit max_depth xs) \<subseteq># mset xs" for xs
    by (simp add: submit_def)
  then have "mset (submit max_depth [(with_slash root_url, 0, [])]) +
        mset (submit max_depth (children_of fetch urljoin ?sub)) \<subseteq>#
        mset [(with_slash root_url, 0, [])] + mset (children_of fetch urljoin ?sub)"
    by (intro mset_subset_eq_mono_add)
  with s have "mset ?sub \<subseteq># mset ((with_slash root_url, 0, []) # children_of fetch urljoin ?sub)"
    by (simp add: subset_mset.order_trans)
  then have "image_mset fst (mset ?sub) \<subseteq>#
      image_mset fst (mset ((with_slash root_url, 0, []) # children_of fetch urljoin ?sub))"
    by (rule image_mset_subseteq_mono)
  then have "mset (map fst ?sub) \<subseteq>#
      mset (with_slash root_url # map fst (children_of fetch urljoin ?sub))"
    by simp
  also have "mset (with_slash root_url # map fst (children_of fetch urljoin ?sub)) =
      mset (with_slash root_url # dir_urls rs)"
    using mset_dir_urls_cong [OF r] by (simp add: dir_urls_entries_of)
  finally have sub: "mset (map fst ?sub) \<subseteq># mset (with_slash root_url # dir_urls rs)" .
  then show "mset (map fst ?sub) \<subseteq># mset (with_slash root_url # dir_urls rs) \<and>
     (distinct (with_slash root_url # dir_urls rs) \<longrightarrow> distinct (map fst ?sub))"
    by (blast intro: distinct_mset_subseteq)
qed


theorem fetched_urls_bounded_witness:
  "snd (crawl_directory fetch_site urljoin_plain no_delay ''http://h/logs'' 5 20) =
     Inr [(''d'', ''a/'', ''http://h/logs/a/''), (''f'', ''a/c.txt'', ''http://h/logs/a/c.txt''),
          (''f'', ''b.txt'', ''http://h/logs/b.txt''),
          (''d'', ''down/'', ''http://h/logs/down/'')] \<and>
   distinct (with_slash ''http://h/logs'' #
     dir_urls [(''d'', ''a/'', ''http://h/logs/a/''), (''f'', ''a/c.txt'', ''http://h/logs/a/c.txt''),
          (''f'', ''b.txt'', ''http://h/logs/b.txt''),
          (''d'', ''down/'', ''http://h/logs/down/'')]) \<and>
   distinct (map fst (fst (crawl_directory fetch_site urljoin_plain no_delay ''http://h/logs'' 5 20)))"
  using fetched_urls_bounded [of fetch_site urljoin_plain no_delay "''http://h/logs''" 5 20
      "[(''d'', ''a/'', ''http://h/logs/a/''), (''f'', ''a/c.txt'', ''http://h/logs/a/c.txt''),
          (''f'', ''b.txt'', ''http://h/logs/b.txt''),
          (''d'', ''down/'', ''http://h/logs/down/'')]"]
  by (simp add: site_crawl dir_urls_def with_slash_def endswith_def)


subsection \<open>C1: the result and the completion order\<close>

text \<open>
  C1 as stated: for fixed fetch results, the crawl returns the identical list for every
  worker count and every completion order. The two runs below differ only in which of
  two futures of the second level completes first, and return different lists: the two
  directories have the same anchor text, so their files have equal paths and the stable
  sort leaves them in completion order.
\<close>

theorem crawl_determinism_counterexample:
  "snd (crawl_directory fetch_twins urljoin_plain no_delay ''http://h/logs/'' 5 20) =
     Inr [(''d'', ''run..&gt;/'', ''http://h/logs/run-1/''),
          (''d'', ''run..&gt;/'', ''http://h/logs/run-2/''),
          (''f'', ''run..&gt;/log.txt'', ''http://h/logs/run-1/log.txt''),
          (''f'', ''run..&gt;/log.txt'', ''http://h/logs/run-2/log.txt'')] \<and>
   snd (crawl_directory fetch_twins urljoin_plain last_first ''http://h/logs/'' 5 20) =
     Inr [(''d'', ''run..&gt;/'', ''http://h/logs/run-1/''),
          (''d'', ''run..&gt;/'', ''http://h/logs/run-2/''),
          (''f'', ''run..&gt;/log.txt'', ''http://h/logs/run-2/log.txt''),
          (''f'', ''run..&gt;/log.txt'', ''http://h/logs/run-1/log.txt'')] \<and>
   crawl_directory fetch_twins urljoin_plain no_delay ''http://h/logs/'' 5 20 \<noteq>
   crawl_directory fetch_twins urljoin_plain last_first ''http://h/logs/'' 5 20"
proof -
  have "snd (crawl_directory fetch_twins urljoin_plain no_delay ''http://h/logs/'' 5 20) \<noteq>
        snd (crawl_directory fetch_twins urljoin_plain last_first ''http://h/logs/'' 5 20)"
    unfolding twins_crawl by simp
  then have "crawl_directory fetch_twins urljoin_plain no_delay ''http://h/logs/'' 5 20 \<noteq>
      crawl_directory fetch_twins urljoin_plain last_first ''http://h/logs/'' 5 20"
    by auto
  with twins_crawl show ?thesis
    by simp
qed

text \<open>
  C1, amended. For fixed fetch results, any two worker counts the pool accepts and any
  two completion orders, the two crawls submit the same items, either both raise or both
  return, and the lists returned are sorted by path and hold the same entries the same
  number of times; they are the identical list whenever the paths of the entries are
  pairwise distinct.
\<close>

theorem crawl_order_independent:
  "0 < workers \<and> 0 < workers' \<longrightarrow>
     mset (fst (crawl_directory fetch urljoin delay root_url max_depth workers)) =
       mset (fst (crawl_directory fetch urljoin delay' root_url max_depth workers')) \<and>
     (isl (snd (crawl_directory fetch urljoin delay root_url max_depth workers)) \<longleftrightarrow>
      isl (snd (crawl_directory fetch urljoin delay' root_url max_depth workers'))) \<and>
     (\<forall>rs rs'.
        snd (crawl_directory fetch urljoin delay root_url max_depth workers) = Inr rs \<and>
        snd (crawl_directory fetch urljoin delay' root_url max_depth workers') = Inr rs' \<longrightarrow>
        sorted (map (\<lambda>x. fst (snd x)) rs) \<and> mset rs = mset rs' \<and>
        (distinct (map (\<lambda>x. fst (snd x)) rs) \<longrightarrow> rs = rs'))"
proof (intro impI)
  assume w: "0 < workers \<and> 0 < workers'"
  let ?L = "crawl_loop fetch urljoin delay max_depth 0 [(with_slash root_url, 0, [])] [] []"
  let ?L' = "crawl_loop fetch urljoin delay' max_depth 0 [(with_slash root_url, 0, [])] [] []"
  let ?A = "crawl_directory fetch urljoin delay root_url max_depth workers"
  let ?B = "crawl_directory fetch urljoin delay' root_url max_depth workers'"
  let ?path = "\<lambda>x :: entry. fst (snd x)"
  have so: "same_outcome ?L ?L'"
    by (rule crawl_loop_perm) simp_all
  have A: "?A = (fst ?L, case snd ?L of Inl e \<Rightarrow> Inl e | Inr r \<Rightarrow> Inr (sort_key ?path r))"
    and B: "?B = (fst ?L', case snd ?L' of Inl e \<Rightarrow> Inl e | Inr r \<Rightarrow> Inr (sort_key ?path r))"
    using w by (simp_all add: crawl_directory_unfold)
  have 1: "mset (fst ?A) = mset (fst ?B)"
    using so by (simp add: A B same_outcome_def)
  have 2: "isl (snd ?A) \<longleftrightarrow> isl (snd ?B)"
    using so by (auto simp: A B same_outcome_def split: sum.splits)
  have 3: "sorted (map ?path rs) \<and> mset rs = mset rs' \<and> (distinct (map ?path rs) \<longrightarrow> rs = rs')"
    if "snd ?A = Inr rs \<and> snd ?B = Inr rs'" for rs rs'
  proof -
    from that obtain r r' where
      r: "snd ?L = Inr r" "rs = sort_key ?path r" and
      r': "snd ?L' = Inr r'" "rs' = sort_key ?path r'"
      by (auto simp: A B split: sum.splits)
    from so r(1) r'(1) have m: "mset r = mset r'"
      by (simp add: same_outcome_def)
    have "distinct (map ?path rs) \<longrightarrow> rs = rs'"
    proof
      assume "distinct (map ?path rs)"
      moreover have "mset (map ?path rs) = mset (map ?path r)"
        unfolding r(2) by simp
      ultimately have "distinct (map ?path r)"
        using mset_eq_imp_distinct_iff by blast
      with m show "rs = rs'"
        unfolding r(2) r'(2) by (rule sort_key_mset_distinct)
    qed
    with m show ?thesis
      by (simp add: r(2) r'(2))
  qed
  from 1 2 3 show "mset (fst ?A) = mset (fst ?B) \<and> (isl (snd ?A) \<longleftrightarrow> isl (snd ?B)) \<and>
     (\<forall>rs rs'. snd ?A = Inr rs \<and> snd ?B = Inr rs' \<longrightarrow>
        sorted (map ?path rs) \<and> mset rs = mset rs' \<and>
        (distinct (map ?path rs) \<longrightarrow> rs = rs'))"
    by blast
qed


theorem crawl_order_independent_witness:
  "(0::int) < 20 \<and> (0::int) < 3 \<and>
   distinct (map (\<lambda>x. fst (snd x))
     [(''d'', ''a/'', ''http://h/logs/a/''), (''f'', ''a/c.txt'', ''http://h/logs/a/c.txt''),
      (''f'', ''b.txt'', ''http://h/logs/b.txt''), (''d'', ''down/'', ''http://h/logs/down/'')]) \<and>
   snd (crawl_directory fetch_site urljoin_plain no_delay ''http://h/logs'' 5 20) =
   snd (crawl_directory fetch_site urljoin_plain last_first ''http://h/logs'' 5 3) \<and>
   sorted (map (\<lambda>x. fst (snd x))
     [(''d'', ''a/'', ''http://h/logs/a/''), (''f'', ''a/c.txt'', ''http://h/logs/a/c.txt''),
      (''f'', ''b.txt'', ''http://h/logs/b.txt''), (''d'', ''down/'', ''http://h/logs/down/'')])"
  using crawl_order_independent
    [of 20 3 fetch_site urljoin_plain no_delay "''http://h/logs''" 5 last_first]
  by (simp add: site_crawl site_crawl_last_first)


subsection \<open>C7: paths of the entries\<close>

text \<open>
  C7 as stated: within one crawl every returned entry has a path distinct from that of
  every other returned entry. The root page below has two directory links with
  different hrefs and the same anchor text, and the result holds the same path twice.
\<close>

theorem path_uniqueness_counterexample:
  "snd (crawl_directory fetch_twins urljoin_plain no_delay ''http://h/logs/'' 1 20) =
     Inr [(''d'', ''run..&gt;/'', ''http://h/logs/run-1/''),
          (''d'', ''run..&gt;/'', ''http://h/logs/run-2/'')] \<and>
   \<not> distinct (map (\<lambda>e. fst (snd e))
     [(''d'', ''run..&gt;/'', ''http://h/logs/run-1/''),
      (''d'', ''run..&gt;/'', ''http://h/logs/run-2/'')])"
  using twins_crawl_one by simp

text \<open>
  C7, amended. In a crawl that returns, the paths of the entries are pairwise distinct
  provided that on the page of every submitted item the links have plain names: no name
  is empty or contains \<^verbatim>\<open>/\<close>, and no two links of the page have the same name and kind
  suffix. Paths are built from the anchor texts along the prefix chain; hrefs, not
  anchor texts, are what \<^verbatim>\<open>_parse_links\<close> deduplicates.
\<close>

theorem paths_unique_for_plain_names:
  "snd (crawl_directory fetch urljoin delay root_url max_depth workers) = Inr rs \<and>
   (\<forall>it \<in> set (fst (crawl_directory fetch urljoin delay root_url max_depth workers)).
      plain_names (page_links fetch urljoin it)) \<longrightarrow>
   distinct (map (\<lambda>e. fst (snd e)) rs)"
proof
  let ?L = "crawl_loop fetch urljoin delay max_depth 0 [(with_slash root_url, 0, [])] [] []"
  assume a: "snd (crawl_directory fetch urljoin delay root_url max_depth workers) = Inr rs \<and>
   (\<forall>it \<in> set (fst (crawl_directory fetch urljoin delay root_url max_depth workers)).
      plain_names (page_links fetch urljoin it))"
  then have w: "0 < workers"
    by (auto simp: crawl_directory_unfold split: if_splits)
  with a obtain r where r: "snd ?L = Inr r" and rs: "rs = sort_key (\<lambda>e. fst (snd e)) r"
    by (auto simp: crawl_directory_unfold split: sum.splits)
  from a w have pl: "\<forall>it \<in> set (fst ?L). plain_names (page_links fetch urljoin it)"
    by (simp add: crawl_directory_unfold)
  have "level_inv 0 [(with_slash root_url, 0, [])] []"
    by (simp add: level_inv_def closed_def slashes_def)
  from crawl_loop_distinct_paths [OF this pl r]
  have "distinct (map (\<lambda>e. fst (snd e)) r)" .
  moreover have "mset (map (\<lambda>e. fst (snd e)) rs) = mset (map (\<lambda>e. fst (snd e)) r)"
    unfolding rs by simp
  ultimately show "distinct (map (\<lambda>e. fst (snd e)) rs)"
    using mset_eq_imp_distinct_iff by blast
qed


theorem paths_unique_for_plain_names_witness:
  "snd (crawl_directory fetch_site urljoin_plain no_delay ''http://h/logs'' 5 20) =
     Inr [(''d'', ''a/'', ''http://h/logs/a/''), (''f'', ''a/c.txt'', ''http://h/logs/a/c.txt''),
          (''f'', ''b.txt'', ''http://h/logs/b.txt''),
          (''d'', ''down/'', ''http://h/logs/down/'')] \<and>
   plain_names (page_links fetch_site urljoin_plain (''http://h/logs/'', 0, [])) \<and>
   plain_names (page_links fetch_site urljoin_plain (''http://h/logs/a/'', 1, ''a/'')) \<and>
   plain_names (page_links fetch_site urljoin_plain (''http://h/logs/down/'', 1, ''down/'')) \<and>
   distinct (map (\<lambda>e. fst (snd e))
     [(''d'', ''a/'', ''http://h/logs/a/''), (''f'', ''a/c.txt'', ''http://h/logs/a/c.txt''),
      (''f'', ''b.txt'', ''http://h/logs/b.txt''), (''d'', ''down/'', ''http://h/logs/down/'')])"
proof -
  have out: "snd (crawl_directory fetch_site urljoin_plain no_delay ''http://h/logs'' 5 20) =
     Inr [(''d'', ''a/'', ''http://h/logs/a/''), (''f'', ''a/c.txt'', ''http://h/logs/a/c.txt''),
          (''f'', ''b.txt'', ''http://h/logs/b.txt''),
          (''d'', ''down/'', ''http://h/logs/down/'')]"
    by (simp add: site_crawl)
  from paths_unique_for_plain_names
    [of fetch_site urljoin_plain no_delay "''http://h/logs''" 5 20] out site_plain_names
  have "distinct (map (\<lambda>e. fst (snd e))
     [(''d'', ''a/'', ''http://h/logs/a/''), (''f'', ''a/c.txt'', ''http://h/logs/a/c.txt''),
      (''f'', ''b.txt'', ''http://h/logs/b.txt''), (''d'', ''down/'', ''http://h/logs/down/'')])"
    by blast
  with out site_plain_names show ?thesis
    by (simp add: site_crawl)
qed

end
